theory Spec2Isabelle
  imports Main "HOL-Library.Sublist" "HOL-Library.AList" "HOL-Library.Char_ord" "HOL-Library.List_Lexorder"
begin

section \<open>Watches (consul/state/watch.go)\<close>

text \<open>
  Channels (\<^verbatim>\<open>chan struct{}\<close>) are reference values; they are identified by a number.
  Objects reached through Go pointers live in a store: \<open>cells\<close> maps an address to the
  object, \<open>nxt\<close> is the next address an allocation returns. A pointer is an
  \<open>addr option\<close>, \<open>None\<close> being \<^verbatim>\<open>nil\<close>.
\<close>

type_synonym chan = nat
type_synonym addr = nat

record 'a heap =
  cells :: "addr \<Rightarrow> 'a"
  nxt :: addr

definition heap_alloc :: "'a \<Rightarrow> 'a heap \<Rightarrow> addr \<times> 'a heap" where
  "heap_alloc x h = (nxt h, h\<lparr>cells := (cells h)(nxt h := x), nxt := nxt h + 1\<rparr>)"

definition heap_put :: "addr \<Rightarrow> 'a \<Rightarrow> 'a heap \<Rightarrow> 'a heap" where
  "heap_put a x h = h\<lparr>cells := (cells h)(a := x)\<rparr>"

datatype panic = NilPointerDereference

subsection \<open>NotifyGroup\<close>

text \<open>
  Modelled from the spec: the type \<^verbatim>\<open>NotifyGroup\<close> and its methods \<^verbatim>\<open>Wait\<close>,
  \<^verbatim>\<open>Clear\<close> and \<^verbatim>\<open>Notify\<close> are declared in a file that is not part of the sources.
  The spec (4.1): a group holds a set of interested wake channels; \<^verbatim>\<open>Wait\<close> registers a
  channel (registering twice is harmless), \<^verbatim>\<open>Clear\<close> deregisters it, \<^verbatim>\<open>Notify\<close> wakes
  every registered channel and then removes all registrations. \<open>NotifyGroup_Notify\<close>
  returns the set of channels it has signalled.
\<close>

record NotifyGroup =
  notify :: "chan set"

definition NotifyGroup_zero :: NotifyGroup where
  "NotifyGroup_zero = \<lparr>notify = {}\<rparr>"

definition NotifyGroup_Wait :: "NotifyGroup \<Rightarrow> chan \<Rightarrow> NotifyGroup" where
  "NotifyGroup_Wait g ch = g\<lparr>notify := insert ch (notify g)\<rparr>"

definition NotifyGroup_Clear :: "NotifyGroup \<Rightarrow> chan \<Rightarrow> NotifyGroup" where
  "NotifyGroup_Clear g ch = g\<lparr>notify := notify g - {ch}\<rparr>"

definition NotifyGroup_Notify :: "NotifyGroup \<Rightarrow> chan set \<times> NotifyGroup" where
  "NotifyGroup_Notify g = (notify g, g\<lparr>notify := {}\<rparr>)"

subsection \<open>FullTableWatch\<close>

text \<open>
  \<^verbatim>\<open>type FullTableWatch struct { group NotifyGroup }\<close>. The methods have pointer
  receivers and reach the embedded group through the receiver, so a \<^verbatim>\<open>nil\<close> receiver
  panics with a nil pointer dereference.
\<close>

record FullTableWatch =
  group :: NotifyGroup

definition NewFullTableWatch :: "FullTableWatch heap \<Rightarrow> addr \<times> FullTableWatch heap" where
  "NewFullTableWatch h = heap_alloc \<lparr>group = NotifyGroup_zero\<rparr> h"

definition FullTableWatch_Wait ::
  "addr option \<Rightarrow> chan \<Rightarrow> FullTableWatch heap \<Rightarrow> panic + FullTableWatch heap" where
  "FullTableWatch_Wait w notifyCh h =
     (case w of
        None \<Rightarrow> Inl NilPointerDereference
      | Some a \<Rightarrow>
          Inr (heap_put a ((cells h a)\<lparr>group := NotifyGroup_Wait (group (cells h a)) notifyCh\<rparr>) h))"

definition FullTableWatch_Clear ::
  "addr option \<Rightarrow> chan \<Rightarrow> FullTableWatch heap \<Rightarrow> panic + FullTableWatch heap" where
  "FullTableWatch_Clear w notifyCh h =
     (case w of
        None \<Rightarrow> Inl NilPointerDereference
      | Some a \<Rightarrow>
          Inr (heap_put a ((cells h a)\<lparr>group := NotifyGroup_Clear (group (cells h a)) notifyCh\<rparr>) h))"

definition FullTableWatch_Notify ::
  "addr option \<Rightarrow> FullTableWatch heap \<Rightarrow> panic + (chan set \<times> FullTableWatch heap)" where
  "FullTableWatch_Notify w h =
     (case w of
        None \<Rightarrow> Inl NilPointerDereference
      | Some a \<Rightarrow>
          (case NotifyGroup_Notify (group (cells h a)) of
             (woken, g) \<Rightarrow> Inr (woken, heap_put a ((cells h a)\<lparr>group := g\<rparr>) h)))"

subsection \<open>DumbWatchManager\<close>

text \<open>
  \<^verbatim>\<open>tableWatches map[string]*FullTableWatch\<close> and \<^verbatim>\<open>armed map[string]bool\<close>. Reading a
  key that \<open>tableWatches\<close> does not hold yields the zero value \<^verbatim>\<open>nil\<close>, which is \<open>None\<close>
  here as well. \<open>armed\<close> is the map made by \<^verbatim>\<open>NewDumbWatchManager\<close>, never \<^verbatim>\<open>nil\<close>.
\<close>

record DumbWatchManager =
  tableWatches :: "string \<rightharpoonup> addr"
  armed :: "string \<rightharpoonup> bool"

definition NewDumbWatchManager :: "(string \<rightharpoonup> addr) \<Rightarrow> DumbWatchManager" where
  "NewDumbWatchManager tws = \<lparr>tableWatches = tws, armed = Map.empty\<rparr>"

definition Arm :: "DumbWatchManager \<Rightarrow> string \<Rightarrow> DumbWatchManager" where
  "Arm d table = (if armed d table = None then d\<lparr>armed := (armed d)(table \<mapsto> True)\<rparr> else d)"

text \<open>
  \<^verbatim>\<open>for table, _ := range d.armed { d.tableWatches[table].Notify() }\<close>. Go leaves the
  order in which \<^verbatim>\<open>range\<close> yields the keys of a map open, so the order is a parameter:
  \<open>ks\<close> is any list that \<open>range_order\<close> accepts for the armed map. The loop state is the
  list of tables whose watch has been fired so far, the channels signalled so far, and the
  store of the watches. A panic ends the loop.
\<close>

definition range_order :: "(string \<rightharpoonup> bool) \<Rightarrow> string list \<Rightarrow> bool" where
  "range_order m ks = (distinct ks \<and> set ks = dom m)"

fun Notify_range ::
  "DumbWatchManager \<Rightarrow> string list \<Rightarrow> string list \<times> chan set \<times> FullTableWatch heap \<Rightarrow>
     panic + (string list \<times> chan set \<times> FullTableWatch heap)" where
  "Notify_range d [] st = Inr st"
| "Notify_range d (table # ks) (fired, woken, h) =
     (case FullTableWatch_Notify (tableWatches d table) h of
        Inl p \<Rightarrow> Inl p
      | Inr (wk, h') \<Rightarrow> Notify_range d ks (fired @ [table], woken \<union> wk, h'))"

definition DumbWatchManager_Notify ::
  "string list \<Rightarrow> DumbWatchManager \<Rightarrow> FullTableWatch heap \<Rightarrow>
     panic + (DumbWatchManager \<times> string list \<times> chan set \<times> FullTableWatch heap)" where
  "DumbWatchManager_Notify ks d h =
     (case Notify_range d ks ([], {}, h) of
        Inl p \<Rightarrow> Inl p
      | Inr (fired, woken, h') \<Rightarrow> Inr (d, fired, woken, h'))"

subsection \<open>The prefix map of PrefixWatch\<close>

text \<open>
  Modelled from the spec: the tree \<^verbatim>\<open>radix.Tree\<close> of the imported package
  \<^verbatim>\<open>github.com/armon/go-radix\<close> is not part of the sources. The spec (6) requires an
  ordered string-keyed prefix map with exact insert, lookup and delete, a walk over all
  entries whose key is a prefix of a given string (from the root downward), and a walk over
  all entries whose key has a given string as a prefix. The map is an association list;
  the ancestor walk looks each prefix of the path up, shortest first, and the subtree walk
  visits the matching entries in key order. A walk hands each entry to the callback
  together with the walk's state and stops as soon as the callback returns \<open>True\<close>.
\<close>

type_synonym 'v radix = "(string \<times> 'v) list"

definition radix_New :: "'v radix" where
  "radix_New = []"

definition radix_Get :: "'v radix \<Rightarrow> string \<Rightarrow> 'v option" where
  "radix_Get t k = map_of t k"

definition radix_Insert :: "'v radix \<Rightarrow> string \<Rightarrow> 'v \<Rightarrow> 'v radix" where
  "radix_Insert t k v = AList.update k v t"

definition radix_Delete :: "'v radix \<Rightarrow> string \<Rightarrow> 'v radix" where
  "radix_Delete t k = AList.delete k t"

fun radix_walk :: "(string \<Rightarrow> 'v \<Rightarrow> 's \<Rightarrow> bool \<times> 's) \<Rightarrow> (string \<times> 'v) list \<Rightarrow> 's \<Rightarrow> 's" where
  "radix_walk fn [] s = s"
| "radix_walk fn ((k, v) # es) s =
     (case fn k v s of (stop, s') \<Rightarrow> if stop then s' else radix_walk fn es s')"

definition path_entries :: "'v radix \<Rightarrow> string \<Rightarrow> (string \<times> 'v) list" where
  "path_entries t path =
     List.map_filter (\<lambda>k. map_option (Pair k) (map_of t k)) (prefixes path)"

definition prefix_entries :: "'v radix \<Rightarrow> string \<Rightarrow> (string \<times> 'v) list" where
  "prefix_entries t p = sort_key fst (filter (\<lambda>e. prefix p (fst e)) t)"

definition radix_WalkPath ::
  "'v radix \<Rightarrow> string \<Rightarrow> (string \<Rightarrow> 'v \<Rightarrow> 's \<Rightarrow> bool \<times> 's) \<Rightarrow> 's \<Rightarrow> 's" where
  "radix_WalkPath t path fn s = radix_walk fn (path_entries t path) s"

definition radix_WalkPrefix ::
  "'v radix \<Rightarrow> string \<Rightarrow> (string \<Rightarrow> 'v \<Rightarrow> 's \<Rightarrow> bool \<times> 's) \<Rightarrow> 's \<Rightarrow> 's" where
  "radix_WalkPrefix t p fn s = radix_walk fn (prefix_entries t p) s"

subsection \<open>PrefixWatch\<close>

text \<open>
  \<^verbatim>\<open>watches *radix.Tree\<close> maps a prefix to a \<^verbatim>\<open>*NotifyGroup\<close>; the groups live in a store
  of their own, since a caller of \<^verbatim>\<open>GetSubwatch\<close> keeps the pointer and registers its
  channel through it. The mutex is left out: every method holds it from entry to return.
\<close>

record PrefixWatch =
  watches :: "addr radix"

definition NewPrefixWatch :: PrefixWatch where
  "NewPrefixWatch = \<lparr>watches = radix_New\<rparr>"

definition GetSubwatch ::
  "PrefixWatch \<Rightarrow> NotifyGroup heap \<Rightarrow> string \<Rightarrow> addr \<times> PrefixWatch \<times> NotifyGroup heap" where
  "GetSubwatch w h pfx =
     (case radix_Get (watches w) pfx of
        Some raw \<Rightarrow> (raw, w, h)
      | None \<Rightarrow>
          (case heap_alloc NotifyGroup_zero h of
             (grp, h') \<Rightarrow> (grp, w\<lparr>watches := radix_Insert (watches w) pfx grp\<rparr>, h')))"

text \<open>
  The state the closure \<^verbatim>\<open>fn\<close> of \<^verbatim>\<open>Notify\<close> works on: the store of the groups, the
  captured slice \<^verbatim>\<open>cleanup\<close>, and two records of what the calls of \<^verbatim>\<open>group.Notify()\<close>
  did: the entries they were made for, in order, and the channels they signalled.
\<close>

record notify_state =
  st_heap :: "NotifyGroup heap"
  st_cleanup :: "string list"
  st_fired :: "(string \<times> addr) list"
  st_woken :: "chan set"

definition notify_fn :: "string \<Rightarrow> addr \<Rightarrow> notify_state \<Rightarrow> bool \<times> notify_state" where
  "notify_fn k v st =
     (case NotifyGroup_Notify (cells (st_heap st) v) of
        (wk, g) \<Rightarrow>
          (False,
           st\<lparr>st_heap := heap_put v g (st_heap st),
              st_cleanup := (if k \<noteq> [] then st_cleanup st @ [k] else st_cleanup st),
              st_fired := st_fired st @ [(k, v)],
              st_woken := st_woken st \<union> wk\<rparr>))"

record notify_result =
  res_watch :: PrefixWatch
  res_heap :: "NotifyGroup heap"
  res_fired :: "(string \<times> addr) list"
  res_woken :: "chan set"

definition PrefixWatch_Notify ::
  "PrefixWatch \<Rightarrow> NotifyGroup heap \<Rightarrow> string \<Rightarrow> bool \<Rightarrow> notify_result" where
  "PrefixWatch_Notify w h pfx subtree =
     (let st0 = \<lparr>st_heap = h, st_cleanup = [], st_fired = [], st_woken = {}\<rparr>;
          st1 = radix_WalkPath (watches w) pfx notify_fn st0;
          st2 = (if subtree then radix_WalkPrefix (watches w) pfx notify_fn st1 else st1)
      in \<lparr>res_watch = w\<lparr>watches := foldl radix_Delete (watches w) (rev (st_cleanup st2))\<rparr>,
          res_heap = st_heap st2,
          res_fired = st_fired st2,
          res_woken = st_woken st2\<rparr>)"

section \<open>The catalog store\<close>

text \<open>
  Modelled from the spec: the file that declares \<^verbatim>\<open>StateStore\<close>, its tables and its methods
  (\<^verbatim>\<open>EnsureNode\<close>, \<^verbatim>\<open>GetNode\<close>, \<^verbatim>\<open>Nodes\<close>, \<^verbatim>\<open>DeleteNode\<close>, \<^verbatim>\<open>EnsureService\<close>,
  \<^verbatim>\<open>NodeServices\<close>, \<^verbatim>\<open>DeleteNodeService\<close>, \<^verbatim>\<open>EnsureCheck\<close>, \<^verbatim>\<open>NodeChecks\<close>,
  \<^verbatim>\<open>DeleteCheck\<close>, \<^verbatim>\<open>maxIndex\<close>) and the package \<^verbatim>\<open>structs\<close> with the row types are not
  part of the sources; only the tests of the store are (\<^verbatim>\<open>state_store_test.go\<close>). The
  definitions of this section follow the spec (3, 4.5, 7 and the design notes of 9); the
  rows have the fields the tests read and write. An index is a \<^verbatim>\<open>uint64\<close> in the tests;
  the store only compares and stores indices, so they are natural numbers here.
\<close>

datatype error = ErrMissingNode | ErrMissingService

record Node =
  n_Node :: string
  n_Address :: string
  n_CreateIndex :: nat
  n_ModifyIndex :: nat

record NodeService =
  ns_ID :: string
  ns_Service :: string
  ns_Tags :: "string list"
  ns_Address :: string
  ns_Port :: int
  ns_CreateIndex :: nat
  ns_ModifyIndex :: nat

record HealthCheck =
  hc_Node :: string
  hc_CheckID :: string
  hc_Name :: string
  hc_Status :: string
  hc_Notes :: string
  hc_Output :: string
  hc_ServiceID :: string
  hc_ServiceName :: string
  hc_CreateIndex :: nat
  hc_ModifyIndex :: nat

record NodeServices =
  nss_Node :: Node
  nss_Services :: "string \<rightharpoonup> NodeService"

text \<open>
  Modelled from the spec (3): the store, which is not part of the sources, holds the three
  tables, the tracked index of each table, and the watch of each table. A row of
  the services table is a service together with the name of the node that owns it.
\<close>

record StateStore =
  tbl_nodes :: "Node list"
  tbl_services :: "(string \<times> NodeService) list"
  tbl_checks :: "HealthCheck list"
  tbl_index :: "string \<rightharpoonup> nat"
  store_watches :: "string \<rightharpoonup> addr"

definition NewStateStore :: StateStore where
  "NewStateStore =
     \<lparr>tbl_nodes = [], tbl_services = [], tbl_checks = [], tbl_index = Map.empty,
      store_watches = [''nodes'' \<mapsto> 0, ''services'' \<mapsto> 1, ''checks'' \<mapsto> 2]\<rparr>"

subsection \<open>Reads\<close>

definition GetNode :: "StateStore \<Rightarrow> string \<Rightarrow> Node option" where
  "GetNode s name = find (\<lambda>n. n_Node n = name) (tbl_nodes s)"

definition Nodes :: "StateStore \<Rightarrow> Node list" where
  "Nodes s = sort_key n_Node (tbl_nodes s)"

definition node_services :: "StateStore \<Rightarrow> string \<Rightarrow> NodeService list" where
  "node_services s name = map snd (filter (\<lambda>row. fst row = name) (tbl_services s))"

definition getService :: "StateStore \<Rightarrow> string \<Rightarrow> string \<Rightarrow> NodeService option" where
  "getService s name sid = find (\<lambda>svc. ns_ID svc = sid) (node_services s name)"

definition NodeChecks :: "StateStore \<Rightarrow> string \<Rightarrow> HealthCheck list" where
  "NodeChecks s name = filter (\<lambda>c. hc_Node c = name) (tbl_checks s)"

definition getCheck :: "StateStore \<Rightarrow> string \<Rightarrow> string \<Rightarrow> HealthCheck option" where
  "getCheck s name cid = find (\<lambda>c. hc_CheckID c = cid) (NodeChecks s name)"

definition maxIndex :: "StateStore \<Rightarrow> string \<Rightarrow> nat" where
  "maxIndex s table = (case tbl_index s table of None \<Rightarrow> 0 | Some i \<Rightarrow> i)"

text \<open>
  Modelled from the spec (3): the key of the services table, which is not part of the
  sources, is the node name together with the service id; no two rows of a store share it.
\<close>

definition services_keyed :: "StateStore \<Rightarrow> bool" where
  "services_keyed s = distinct (map (\<lambda>row. (fst row, ns_ID (snd row))) (tbl_services s))"

text \<open>
  Modelled from the spec (4.5): \<^verbatim>\<open>NodeServices\<close>, which is not part of the sources,
  returns not found when the node does not exist; otherwise the node's services
  keyed by service id, and the node with the highest create and modify index among its
  services in place of its own, which it keeps when it has no service.
\<close>

definition NodeServices :: "StateStore \<Rightarrow> string \<Rightarrow> NodeServices option" where
  "NodeServices s name =
     (case GetNode s name of
        None \<Rightarrow> None
      | Some node \<Rightarrow>
          (let rows = node_services s name
           in Some
             \<lparr>nss_Node =
                (if rows = [] then node
                 else node\<lparr>n_CreateIndex := fold max (map ns_CreateIndex rows) 0,
                           n_ModifyIndex := fold max (map ns_ModifyIndex rows) 0\<rparr>),
              nss_Services = fold (\<lambda>svc m. m(ns_ID svc \<mapsto> svc)) rows Map.empty\<rparr>))"

subsection \<open>Writes\<close>

text \<open>
  Modelled from the spec (4.5): the write methods are not part of the sources. A write
  runs in a transaction: it works on a copy of the store and on a
  \<^verbatim>\<open>DumbWatchManager\<close> over the store's watches, in which it arms every table it touches.
  When the body fails the transaction is aborted: the store stays as it was and nothing is
  armed. Otherwise it is committed: the changed store replaces the old one and the
  manager is the one whose \<^verbatim>\<open>Notify()\<close> the commit runs.
\<close>

type_synonym txn = "StateStore \<times> DumbWatchManager"

record WriteResult =
  wr_err :: "error option"
  wr_store :: StateStore
  wr_watches :: "DumbWatchManager option"

definition write_txn :: "StateStore \<Rightarrow> (txn \<Rightarrow> error + txn) \<Rightarrow> WriteResult" where
  "write_txn s body =
     (case body (s, NewDumbWatchManager (store_watches s)) of
        Inl e \<Rightarrow> \<lparr>wr_err = Some e, wr_store = s, wr_watches = None\<rparr>
      | Inr (s', d) \<Rightarrow> \<lparr>wr_err = None, wr_store = s', wr_watches = Some d\<rparr>)"

text \<open>
  Modelled from the spec (4.5): the upserts of \<^verbatim>\<open>EnsureNode\<close>, \<^verbatim>\<open>EnsureService\<close> and
  \<^verbatim>\<open>EnsureCheck\<close>, which are not part of the sources. A new row gets the index of the
  write as create and modify index; a row that replaces one keeps the create index of the
  row it replaces. The tracked index of the table becomes the index of the write, and the
  table is armed. An upsert replaces the row with the key of the new row, or appends the
  new row when no row has its key; \<open>same\<close> tells whether a row has that key.
\<close>

definition upsert :: "('r \<Rightarrow> bool) \<Rightarrow> 'r \<Rightarrow> 'r list \<Rightarrow> 'r list" where
  "upsert same r rows =
     (if list_ex same rows then map (\<lambda>x. if same x then r else x) rows else rows @ [r])"

definition touch :: "string \<Rightarrow> nat \<Rightarrow> txn \<Rightarrow> txn" where
  "touch table idx t =
     ((fst t)\<lparr>tbl_index := (tbl_index (fst t))(table \<mapsto> idx)\<rparr>, Arm (snd t) table)"

definition ensureNodeTxn :: "nat \<Rightarrow> Node \<Rightarrow> txn \<Rightarrow> error + txn" where
  "ensureNodeTxn idx node t =
     (let n = (case GetNode (fst t) (n_Node node) of
                 Some existing \<Rightarrow>
                   node\<lparr>n_CreateIndex := n_CreateIndex existing, n_ModifyIndex := idx\<rparr>
               | None \<Rightarrow> node\<lparr>n_CreateIndex := idx, n_ModifyIndex := idx\<rparr>)
      in Inr (touch ''nodes'' idx
           ((fst t)\<lparr>tbl_nodes := upsert (\<lambda>x. n_Node x = n_Node node) n (tbl_nodes (fst t))\<rparr>,
            snd t)))"

definition ensureServiceTxn :: "nat \<Rightarrow> string \<Rightarrow> NodeService \<Rightarrow> txn \<Rightarrow> error + txn" where
  "ensureServiceTxn idx name svc t =
     (case GetNode (fst t) name of
        None \<Rightarrow> Inl ErrMissingNode
      | Some _ \<Rightarrow>
          (let v = (case getService (fst t) name (ns_ID svc) of
                      Some existing \<Rightarrow>
                        svc\<lparr>ns_CreateIndex := ns_CreateIndex existing, ns_ModifyIndex := idx\<rparr>
                    | None \<Rightarrow> svc\<lparr>ns_CreateIndex := idx, ns_ModifyIndex := idx\<rparr>)
           in Inr (touch ''services'' idx
                ((fst t)\<lparr>tbl_services :=
                    upsert (\<lambda>row. fst row = name \<and> ns_ID (snd row) = ns_ID svc) (name, v)
                      (tbl_services (fst t))\<rparr>,
                 snd t))))"

definition ensureCheckTxn :: "nat \<Rightarrow> HealthCheck \<Rightarrow> txn \<Rightarrow> error + txn" where
  "ensureCheckTxn idx hc t =
     (case GetNode (fst t) (hc_Node hc) of
        None \<Rightarrow> Inl ErrMissingNode
      | Some _ \<Rightarrow>
          if hc_ServiceID hc \<noteq> [] \<and> getService (fst t) (hc_Node hc) (hc_ServiceID hc) = None
          then Inl ErrMissingService
          else
            (let c = (case getCheck (fst t) (hc_Node hc) (hc_CheckID hc) of
                        Some existing \<Rightarrow>
                          hc\<lparr>hc_CreateIndex := hc_CreateIndex existing, hc_ModifyIndex := idx\<rparr>
                      | None \<Rightarrow> hc\<lparr>hc_CreateIndex := idx, hc_ModifyIndex := idx\<rparr>)
             in Inr (touch ''checks'' idx
                  ((fst t)\<lparr>tbl_checks :=
                      upsert (\<lambda>x. hc_Node x = hc_Node hc \<and> hc_CheckID x = hc_CheckID hc) c
                        (tbl_checks (fst t))\<rparr>,
                   snd t))))"

text \<open>
  Modelled from the spec (4.5, 9): \<^verbatim>\<open>DeleteCheck\<close>, \<^verbatim>\<open>DeleteNodeService\<close> and
  \<^verbatim>\<open>DeleteNode\<close>, which are not part of the sources, as the script of the design notes:
  deleting a check removes it, sets the tracked index of the checks table and arms the
  table; deleting a service first deletes the checks that refer to it; deleting a node
  deletes its services in this way, then the checks the node still has, then the node. A
  delete of a row that is absent changes nothing.
\<close>

definition deleteCheckTxn :: "nat \<Rightarrow> string \<Rightarrow> string \<Rightarrow> txn \<Rightarrow> txn" where
  "deleteCheckTxn idx name cid t =
     (case getCheck (fst t) name cid of
        None \<Rightarrow> t
      | Some _ \<Rightarrow>
          touch ''checks'' idx
            ((fst t)\<lparr>tbl_checks :=
                filter (\<lambda>c. \<not> (hc_Node c = name \<and> hc_CheckID c = cid)) (tbl_checks (fst t))\<rparr>,
             snd t))"

definition deleteNodeServiceTxn :: "nat \<Rightarrow> string \<Rightarrow> string \<Rightarrow> txn \<Rightarrow> txn" where
  "deleteNodeServiceTxn idx name sid t =
     (case getService (fst t) name sid of
        None \<Rightarrow> t
      | Some _ \<Rightarrow>
          (let cids = map hc_CheckID (filter (\<lambda>c. hc_ServiceID c = sid) (NodeChecks (fst t) name));
               t1 = fold (deleteCheckTxn idx name) cids t
           in touch ''services'' idx
                ((fst t1)\<lparr>tbl_services :=
                    filter (\<lambda>row. \<not> (fst row = name \<and> ns_ID (snd row) = sid))
                      (tbl_services (fst t1))\<rparr>,
                 snd t1)))"

definition deleteNodeTxn :: "nat \<Rightarrow> string \<Rightarrow> txn \<Rightarrow> txn" where
  "deleteNodeTxn idx name t =
     (case GetNode (fst t) name of
        None \<Rightarrow> t
      | Some _ \<Rightarrow>
          (let sids = map ns_ID (node_services (fst t) name);
               t1 = fold (deleteNodeServiceTxn idx name) sids t;
               cids = map hc_CheckID (NodeChecks (fst t1) name);
               t2 = fold (deleteCheckTxn idx name) cids t1
           in touch ''nodes'' idx
                ((fst t2)\<lparr>tbl_nodes := filter (\<lambda>n. n_Node n \<noteq> name) (tbl_nodes (fst t2))\<rparr>,
                 snd t2)))"

definition EnsureNode :: "StateStore \<Rightarrow> nat \<Rightarrow> Node \<Rightarrow> WriteResult" where
  "EnsureNode s idx node = write_txn s (ensureNodeTxn idx node)"

definition EnsureService :: "StateStore \<Rightarrow> nat \<Rightarrow> string \<Rightarrow> NodeService \<Rightarrow> WriteResult" where
  "EnsureService s idx name svc = write_txn s (ensureServiceTxn idx name svc)"

definition EnsureCheck :: "StateStore \<Rightarrow> nat \<Rightarrow> HealthCheck \<Rightarrow> WriteResult" where
  "EnsureCheck s idx hc = write_txn s (ensureCheckTxn idx hc)"

definition DeleteNode :: "StateStore \<Rightarrow> nat \<Rightarrow> string \<Rightarrow> WriteResult" where
  "DeleteNode s idx name = write_txn s (\<lambda>t. Inr (deleteNodeTxn idx name t))"

definition DeleteNodeService :: "StateStore \<Rightarrow> nat \<Rightarrow> string \<Rightarrow> string \<Rightarrow> WriteResult" where
  "DeleteNodeService s idx name sid = write_txn s (\<lambda>t. Inr (deleteNodeServiceTxn idx name sid t))"

definition DeleteCheck :: "StateStore \<Rightarrow> nat \<Rightarrow> string \<Rightarrow> string \<Rightarrow> WriteResult" where
  "DeleteCheck s idx name cid = write_txn s (\<lambda>t. Inr (deleteCheckTxn idx name cid t))"

subsection \<open>The helpers of the tests\<close>

text \<open>
  \<^verbatim>\<open>testRegisterNode\<close>, \<^verbatim>\<open>testRegisterService\<close> and \<^verbatim>\<open>testRegisterCheck\<close> build a row
  from the identifiers, every other field zero, and register it; they fail the test when
  the registration returns an error.
\<close>

definition testRegisterNode :: "StateStore \<Rightarrow> nat \<Rightarrow> string \<Rightarrow> WriteResult" where
  "testRegisterNode s idx nodeID =
     EnsureNode s idx \<lparr>n_Node = nodeID, n_Address = [], n_CreateIndex = 0, n_ModifyIndex = 0\<rparr>"

definition testRegisterService :: "StateStore \<Rightarrow> nat \<Rightarrow> string \<Rightarrow> string \<Rightarrow> WriteResult" where
  "testRegisterService s idx nodeID serviceID =
     EnsureService s idx nodeID
       \<lparr>ns_ID = serviceID, ns_Service = [], ns_Tags = [], ns_Address = ''1.1.1.1'',
        ns_Port = 1111, ns_CreateIndex = 0, ns_ModifyIndex = 0\<rparr>"

definition testRegisterCheck ::
  "StateStore \<Rightarrow> nat \<Rightarrow> string \<Rightarrow> string \<Rightarrow> string \<Rightarrow> WriteResult" where
  "testRegisterCheck s idx nodeID serviceID checkID =
     EnsureCheck s idx
       \<lparr>hc_Node = nodeID, hc_CheckID = checkID, hc_Name = [], hc_Status = [], hc_Notes = [],
        hc_Output = [], hc_ServiceID = serviceID, hc_ServiceName = [],
        hc_CreateIndex = 0, hc_ModifyIndex = 0\<rparr>"

subsection \<open>Example states of the watches\<close>

text \<open>
  A watcher of a prefix runs \<^verbatim>\<open>w.GetSubwatch(prefix).Wait(ch)\<close>: it fetches the group and
  registers its channel through the pointer. \<open>four_watchers\<close> is a new \<^verbatim>\<open>PrefixWatch\<close>
  after four watchers have done so: channel 0 on the empty prefix, 1 on \<^verbatim>\<open>/a\<close>, 2 on
  \<^verbatim>\<open>/a/b\<close> and 3 on \<^verbatim>\<open>/a/b/c\<close>.
\<close>

definition heap_empty :: "NotifyGroup heap" where
  "heap_empty = \<lparr>cells = (\<lambda>_. NotifyGroup_zero), nxt = 0\<rparr>"

definition watch_prefix ::
  "PrefixWatch \<times> NotifyGroup heap \<Rightarrow> string \<Rightarrow> chan \<Rightarrow> PrefixWatch \<times> NotifyGroup heap" where
  "watch_prefix wh pfx ch =
     (case GetSubwatch (fst wh) (snd wh) pfx of
        (g, w', h') \<Rightarrow> (w', heap_put g (NotifyGroup_Wait (cells h' g) ch) h'))"

definition four_watchers :: "PrefixWatch \<times> NotifyGroup heap" where
  "four_watchers =
     watch_prefix (watch_prefix (watch_prefix (watch_prefix (NewPrefixWatch, heap_empty)
       [] 0) ''/a'' 1) ''/a/b'' 2) ''/a/b/c'' 3"

text \<open>
  The watches of two tables, channel 7 waiting on the first and channel 8 on the second,
  and a new manager over them.
\<close>

definition two_tables :: "string \<rightharpoonup> addr" where
  "two_tables = [''nodes'' \<mapsto> 0, ''services'' \<mapsto> 1]"

definition two_watches :: "FullTableWatch heap" where
  "two_watches =
     \<lparr>cells = (\<lambda>_. \<lparr>group = NotifyGroup_zero\<rparr>)
        (0 := \<lparr>group = \<lparr>notify = {7}\<rparr>\<rparr>, 1 := \<lparr>group = \<lparr>notify = {8}\<rparr>\<rparr>),
      nxt = 2\<rparr>"

subsection \<open>Example states of the store\<close>

text \<open>
  The store after each step of \<^verbatim>\<open>TestStateStore_DeleteNodeService\<close>, and the store of
  \<^verbatim>\<open>TestStateStore_EnsureService_NodeServices\<close>: two nodes, registered at indices 0 and 1,
  and the same service under three ids, registered at index 10 and 20 on the first node and
  at 20 and 30 on the second.
\<close>

definition scenario_node :: StateStore where
  "scenario_node = wr_store (testRegisterNode NewStateStore 1 ''node1'')"

definition scenario_service :: StateStore where
  "scenario_service = wr_store (testRegisterService scenario_node 2 ''node1'' ''service1'')"

definition scenario_check :: StateStore where
  "scenario_check = wr_store (testRegisterCheck scenario_service 3 ''node1'' ''service1'' ''check1'')"

definition scenario_deleted :: StateStore where
  "scenario_deleted = wr_store (DeleteNodeService scenario_check 4 ''node1'' ''service1'')"

definition redis :: "string \<Rightarrow> NodeService" where
  "redis sid =
     \<lparr>ns_ID = sid, ns_Service = ''redis'', ns_Tags = [''prod''], ns_Address = ''1.1.1.1'',
      ns_Port = 1111, ns_CreateIndex = 0, ns_ModifyIndex = 0\<rparr>"

definition two_nodes :: StateStore where
  "two_nodes =
     wr_store (testRegisterNode (wr_store (testRegisterNode NewStateStore 0 ''node1'')) 1 ''node2'')"

definition three_services :: StateStore where
  "three_services =
     wr_store (EnsureService
       (wr_store (EnsureService
         (wr_store (EnsureService
           (wr_store (EnsureService two_nodes 10 ''node1'' (redis ''service1'')))
           20 ''node1'' (redis ''service2'')))
         20 ''node2'' (redis ''service2'')))
       30 ''node2'' (redis ''service3''))"

text \<open>The check of \<^verbatim>\<open>TestStateStore_EnsureCheck\<close>, with the service id it names.\<close>

definition redis_check :: "string \<Rightarrow> HealthCheck" where
  "redis_check sid =
     \<lparr>hc_Node = ''node1'', hc_CheckID = ''check1'', hc_Name = ''redis check'',
      hc_Status = ''passing'', hc_Notes = ''test check'', hc_Output = ''aaa'',
      hc_ServiceID = sid, hc_ServiceName = ''redis'', hc_CreateIndex = 0, hc_ModifyIndex = 0\<rparr>"

section \<open>Properties of the watches\<close>

subsection \<open>DumbWatchManager\<close>

lemma Arm_idem: "Arm (Arm d t) t = Arm d t"
  by (simp add: Arm_def)

lemma Arm_funpow: "0 < N \<Longrightarrow> ((\<lambda>m. Arm m t) ^^ N) d = Arm d t"
proof (induction N)
  case 0
  then show ?case by simp
next
  case (Suc n)
  show ?case
  proof (cases n)
    case 0
    then show ?thesis by simp
  next
    case (Suc m)
    with Suc.IH have "((\<lambda>m. Arm m t) ^^ n) d = Arm d t" by simp
    then show ?thesis by (simp add: Arm_idem)
  qed
qed

lemma dom_armed_Arm: "dom (armed (Arm d t)) = insert t (dom (armed d))"
  by (auto simp: Arm_def)

lemma tableWatches_Arm: "tableWatches (Arm d t) = tableWatches d"
  by (simp add: Arm_def)

lemma count_list_distinct:
  "distinct xs \<Longrightarrow> count_list xs x = (if x \<in> set xs then 1 else 0)"
  by (induction xs) auto

text \<open>The loop runs through when every table it meets has a watch, and fires them in order.\<close>

lemma Notify_range_known:
  "list_all (\<lambda>k. tableWatches d k \<noteq> None) ks \<Longrightarrow>
     \<exists>wk h'. Notify_range d ks (f, w, h) = Inr (f @ ks, wk, h')"
proof (induction ks arbitrary: f w h)
  case Nil
  then show ?case by simp
next
  case (Cons k ks)
  then obtain a where a: "tableWatches d k = Some a" by auto
  obtain wk h1 where n: "FullTableWatch_Notify (Some a) h = Inr (wk, h1)"
    by (simp add: FullTableWatch_Notify_def NotifyGroup_Notify_def)
  from Cons.prems have "list_all (\<lambda>k. tableWatches d k \<noteq> None) ks" by simp
  from Cons.IH [OF this, of "f @ [k]" "w \<union> wk" h1] a n show ?case by simp
qed

text \<open>The loop panics as soon as it meets a table without a watch.\<close>

lemma Notify_range_unknown:
  "k \<in> set ks \<Longrightarrow> tableWatches d k = None \<Longrightarrow>
     Notify_range d ks (f, w, h) = Inl NilPointerDereference"
proof (induction ks arbitrary: f w h)
  case Nil
  then show ?case by simp
next
  case (Cons x ks)
  show ?case
  proof (cases "tableWatches d x")
    case None
    then show ?thesis by (simp add: FullTableWatch_Notify_def)
  next
    case (Some a)
    with Cons.prems have "k \<in> set ks" by auto
    from Cons.IH [OF this Cons.prems(2)] Some show ?thesis
      by (simp add: FullTableWatch_Notify_def NotifyGroup_Notify_def)
  qed
qed

text \<open>Channels once signalled stay signalled, and a fired table's channels are among them.\<close>

lemma Notify_range_mono:
  "Notify_range d ks (f, w, h) = Inr (f', w', h') \<Longrightarrow> w \<subseteq> w'"
proof (induction ks arbitrary: f w h)
  case Nil
  then show ?case by simp
next
  case (Cons k ks)
  then obtain wk h1 where n: "FullTableWatch_Notify (tableWatches d k) h = Inr (wk, h1)"
    and rest: "Notify_range d ks (f @ [k], w \<union> wk, h1) = Inr (f', w', h')"
    by (auto split: sum.splits)
  from Cons.IH [OF rest] show ?case by simp
qed

lemma Notify_range_wakes:
  "Notify_range d ks (f, w, h) = Inr (f', w', h') \<Longrightarrow> t \<in> set ks \<Longrightarrow>
     tableWatches d t = Some a \<Longrightarrow> notify (group (cells h a)) \<subseteq> w'"
proof (induction ks arbitrary: f w h)
  case Nil
  then show ?case by simp
next
  case (Cons k ks)
  then obtain wk h1 where n: "FullTableWatch_Notify (tableWatches d k) h = Inr (wk, h1)"
    and rest: "Notify_range d ks (f @ [k], w \<union> wk, h1) = Inr (f', w', h')"
    by (auto split: sum.splits)
  from n obtain b where b: "tableWatches d k = Some b"
    and wk: "wk = notify (group (cells h b))"
    and h1: "h1 = heap_put b ((cells h b)\<lparr>group := (group (cells h b))\<lparr>notify := {}\<rparr>\<rparr>) h"
    by (auto simp: FullTableWatch_Notify_def NotifyGroup_Notify_def split: option.splits)
  have mono: "w \<union> wk \<subseteq> w'" using rest by (rule Notify_range_mono)
  show ?case
  proof (cases "a = b")
    case True
    with wk mono show ?thesis by auto
  next
    case False
    with Cons.prems b have "t \<in> set ks" by auto
    from Cons.IH [OF rest this Cons.prems(3)] False show ?thesis
      by (simp add: h1 heap_put_def)
  qed
qed

text \<open>
  Claim C8. For a table \<open>t\<close> of the mapping, \<open>N \<ge> 1\<close> calls of \<^verbatim>\<open>Arm(t)\<close> leave the manager in
  the state one call leaves it in, and a following \<^verbatim>\<open>Notify()\<close>, in whatever order it
  ranges over the armed set, returns and has invoked the \<^verbatim>\<open>Notify()\<close> of \<open>t\<close>'s watch exactly
  once, which signals every channel waiting on that watch. The manager may have armed other
  tables of its mapping before.
\<close>

theorem Arm_many_Notify_once:
  assumes known: "tableWatches d t = Some a"
    and inv: "dom (armed d) \<subseteq> dom (tableWatches d)"
    and N: "0 < N"
    and order: "range_order (armed (((\<lambda>m. Arm m t) ^^ N) d)) ks"
  shows "((\<lambda>m. Arm m t) ^^ N) d = Arm d t \<and>
         (\<exists>fired woken h'.
            DumbWatchManager_Notify ks (((\<lambda>m. Arm m t) ^^ N) d) h
              = Inr (Arm d t, fired, woken, h') \<and>
            count_list fired t = 1 \<and> notify (group (cells h a)) \<subseteq> woken)"
proof -
  have eq: "((\<lambda>m. Arm m t) ^^ N) d = Arm d t" using N by (rule Arm_funpow)
  from order have dist: "distinct ks" and ks: "set ks = insert t (dom (armed d))"
    by (simp_all add: range_order_def eq dom_armed_Arm)
  have "list_all (\<lambda>k. tableWatches (Arm d t) k \<noteq> None) ks"
    using ks known inv by (auto simp: list_all_iff tableWatches_Arm)
  from Notify_range_known [OF this, of "[]" "{}" h]
  obtain wk h' where run: "Notify_range (Arm d t) ks ([], {}, h) = Inr (ks, wk, h')" by auto
  have "count_list ks t = 1"
    using dist ks by (simp add: count_list_distinct)
  moreover have "notify (group (cells h a)) \<subseteq> wk"
  proof (rule Notify_range_wakes [OF run])
    show "t \<in> set ks" using ks by simp
    show "tableWatches (Arm d t) t = Some a" using known by (simp add: tableWatches_Arm)
  qed
  ultimately show ?thesis
    using run by (simp add: eq DumbWatchManager_Notify_def)
qed

lemma two_tables_simps:
  "two_tables ''nodes'' = Some 0" "two_tables ''services'' = Some 1" "two_tables ''bogus'' = None"
  by (simp_all add: two_tables_def)

theorem Arm_many_Notify_once_witness:
  "tableWatches (NewDumbWatchManager two_tables) ''nodes'' = Some 0 \<and>
   dom (armed (NewDumbWatchManager two_tables)) \<subseteq> dom (tableWatches (NewDumbWatchManager two_tables)) \<and>
   (0::nat) < 3 \<and>
   range_order (armed (((\<lambda>m. Arm m ''nodes'') ^^ 3) (NewDumbWatchManager two_tables))) [''nodes''] \<and>
   ((\<lambda>m. Arm m ''nodes'') ^^ 3) (NewDumbWatchManager two_tables)
     = Arm (NewDumbWatchManager two_tables) ''nodes'' \<and>
   (\<exists>fired woken h'.
      DumbWatchManager_Notify [''nodes''] (((\<lambda>m. Arm m ''nodes'') ^^ 3) (NewDumbWatchManager two_tables))
          two_watches
        = Inr (Arm (NewDumbWatchManager two_tables) ''nodes'', fired, woken, h') \<and>
      count_list fired ''nodes'' = 1 \<and> notify (group (cells two_watches 0)) \<subseteq> woken)"
proof -
  have k: "tableWatches (NewDumbWatchManager two_tables) ''nodes'' = Some 0"
    by (simp add: NewDumbWatchManager_def two_tables_simps)
  have i: "dom (armed (NewDumbWatchManager two_tables))
             \<subseteq> dom (tableWatches (NewDumbWatchManager two_tables))"
    by (simp add: NewDumbWatchManager_def)
  have n: "(0::nat) < 3" by simp
  have o: "range_order (armed (((\<lambda>m. Arm m ''nodes'') ^^ 3) (NewDumbWatchManager two_tables)))
             [''nodes'']"
    by (simp add: range_order_def Arm_funpow dom_armed_Arm NewDumbWatchManager_def)
  from Arm_many_Notify_once [OF k i n o, of two_watches] k i n o show ?thesis by blast
qed

text \<open>
  Claim C9, as the code has it. \<^verbatim>\<open>Arm\<close> does not look at the mapping: with a table name the
  mapping does not hold it returns and marks the name armed. The error shows at the next
  \<^verbatim>\<open>Notify()\<close>, which panics on the \<^verbatim>\<open>nil\<close> watch of that name in whatever order it ranges
  over the armed set.
\<close>

theorem Arm_unknown_panics_in_Notify:
  assumes unknown: "tableWatches d t = None"
    and order: "range_order (armed (Arm d t)) ks"
  shows "armed (Arm d t) t \<noteq> None \<and> tableWatches (Arm d t) = tableWatches d \<and>
         DumbWatchManager_Notify ks (Arm d t) h = Inl NilPointerDereference"
proof -
  have "t \<in> set ks" using order by (simp add: range_order_def dom_armed_Arm)
  moreover have "tableWatches (Arm d t) t = None" using unknown by (simp add: tableWatches_Arm)
  ultimately have "Notify_range (Arm d t) ks ([], {}, h) = Inl NilPointerDereference"
    by (rule Notify_range_unknown)
  moreover have "armed (Arm d t) t \<noteq> None" by (auto simp: Arm_def)
  ultimately show ?thesis by (simp add: DumbWatchManager_Notify_def tableWatches_Arm)
qed

theorem Arm_unknown_panics_in_Notify_witness:
  "tableWatches (NewDumbWatchManager two_tables) ''bogus'' = None \<and>
   range_order (armed (Arm (NewDumbWatchManager two_tables) ''bogus'')) [''bogus''] \<and>
   armed (Arm (NewDumbWatchManager two_tables) ''bogus'') ''bogus'' \<noteq> None \<and>
   tableWatches (Arm (NewDumbWatchManager two_tables) ''bogus'')
     = tableWatches (NewDumbWatchManager two_tables) \<and>
   DumbWatchManager_Notify [''bogus''] (Arm (NewDumbWatchManager two_tables) ''bogus'') two_watches
     = Inl NilPointerDereference"
proof -
  have u: "tableWatches (NewDumbWatchManager two_tables) ''bogus'' = None"
    by (simp add: NewDumbWatchManager_def two_tables_simps)
  have o: "range_order (armed (Arm (NewDumbWatchManager two_tables) ''bogus'')) [''bogus'']"
    by (simp add: range_order_def dom_armed_Arm NewDumbWatchManager_def)
  from Arm_unknown_panics_in_Notify [OF u o, of two_watches] u o show ?thesis by blast
qed

text \<open>
  Against claim C9 as stated: on a new manager over the tables \<^verbatim>\<open>nodes\<close> and \<^verbatim>\<open>services\<close>,
  \<^verbatim>\<open>Arm("bogus")\<close> returns, and the manager it leaves has \<^verbatim>\<open>bogus\<close> armed.
\<close>

theorem Arm_unknown_returns:
  "tableWatches (NewDumbWatchManager two_tables) ''bogus'' = None \<and>
   Arm (NewDumbWatchManager two_tables) ''bogus''
     = \<lparr>tableWatches = two_tables, armed = [''bogus'' \<mapsto> True]\<rparr>"
  by (simp add: NewDumbWatchManager_def Arm_def two_tables_simps)

text \<open>
  Claim C10. A \<^verbatim>\<open>Notify()\<close> that returns leaves the manager as it was, the armed set
  included, and has fired the armed tables. A second \<^verbatim>\<open>Notify()\<close> on the same manager
  returns as well and invokes the \<^verbatim>\<open>Notify()\<close> of every armed table's watch once more.
  \<^verbatim>\<open>Arm\<close> never disarms a table either; a manager made by \<^verbatim>\<open>NewDumbWatchManager\<close> has
  nothing armed.
\<close>

theorem Notify_keeps_armed:
  assumes first: "DumbWatchManager_Notify ks d h = Inr (d', fired, woken, h')"
    and order: "range_order (armed d) ks"
    and order': "range_order (armed d) ks'"
  shows "d' = d \<and> armed d' = armed d \<and> set fired = dom (armed d) \<and>
         (\<exists>fired' woken' h''.
            DumbWatchManager_Notify ks' d' h' = Inr (d', fired', woken', h'') \<and>
            set fired' = dom (armed d) \<and>
            (\<forall>t. count_list fired' t = (if armed d t = None then 0 else 1))) \<and>
         (\<forall>t. dom (armed d) \<subseteq> dom (armed (Arm d t))) \<and>
         armed (NewDumbWatchManager (tableWatches d)) = Map.empty"
proof -
  from first obtain st where run: "Notify_range d ks ([], {}, h) = Inr st" and d': "d' = d"
    by (auto simp: DumbWatchManager_Notify_def split: sum.splits)
  have known: "tableWatches d k \<noteq> None" if "k \<in> set ks" for k
  proof
    assume "tableWatches d k = None"
    with that have "Notify_range d ks ([], {}, h) = Inl NilPointerDereference"
      by (rule Notify_range_unknown)
    with run show False by simp
  qed
  have all: "list_all (\<lambda>k. tableWatches d k \<noteq> None) ks" using known by (simp add: list_all_iff)
  from Notify_range_known [OF all, of "[]" "{}" h] run first
  have fired: "fired = ks" by (auto simp: DumbWatchManager_Notify_def)
  have "set ks' = set ks" using order order' by (simp add: range_order_def)
  with known have "list_all (\<lambda>k. tableWatches d k \<noteq> None) ks'" by (simp add: list_all_iff)
  from Notify_range_known [OF this, of "[]" "{}" h']
  obtain wk h2 where "Notify_range d ks' ([], {}, h') = Inr (ks', wk, h2)" by auto
  then have "DumbWatchManager_Notify ks' d' h' = Inr (d', ks', wk, h2)"
    by (simp add: DumbWatchManager_Notify_def d')
  moreover have "set ks' = dom (armed d)" using order' by (simp add: range_order_def)
  moreover have "count_list ks' t = (if armed d t = None then 0 else 1)" for t
    using order' by (auto simp: range_order_def count_list_distinct)
  moreover have "set fired = dom (armed d)" using order fired by (simp add: range_order_def)
  moreover have "dom (armed d) \<subseteq> dom (armed (Arm d t))" for t
    by (auto simp: dom_armed_Arm)
  ultimately show ?thesis by (auto simp: d' NewDumbWatchManager_def)
qed

theorem Notify_keeps_armed_witness:
  "DumbWatchManager_Notify [''nodes''] (Arm (NewDumbWatchManager two_tables) ''nodes'') two_watches
     = Inr (Arm (NewDumbWatchManager two_tables) ''nodes'', [''nodes''], {7},
            heap_put 0 \<lparr>group = \<lparr>notify = {}\<rparr>\<rparr> two_watches) \<and>
   range_order (armed (Arm (NewDumbWatchManager two_tables) ''nodes'')) [''nodes''] \<and>
   armed (Arm (NewDumbWatchManager two_tables) ''nodes'')
     = armed (Arm (NewDumbWatchManager two_tables) ''nodes'') \<and>
   set [''nodes''] = dom (armed (Arm (NewDumbWatchManager two_tables) ''nodes'')) \<and>
   (\<exists>fired' woken' h''.
      DumbWatchManager_Notify [''nodes''] (Arm (NewDumbWatchManager two_tables) ''nodes'')
          (heap_put 0 \<lparr>group = \<lparr>notify = {}\<rparr>\<rparr> two_watches)
        = Inr (Arm (NewDumbWatchManager two_tables) ''nodes'', fired', woken', h'') \<and>
      set fired' = dom (armed (Arm (NewDumbWatchManager two_tables) ''nodes'')) \<and>
      (\<forall>t. count_list fired' t
            = (if armed (Arm (NewDumbWatchManager two_tables) ''nodes'') t = None then 0 else 1))) \<and>
   (\<forall>t. dom (armed (Arm (NewDumbWatchManager two_tables) ''nodes''))
          \<subseteq> dom (armed (Arm (Arm (NewDumbWatchManager two_tables) ''nodes'') t))) \<and>
   armed (NewDumbWatchManager (tableWatches (Arm (NewDumbWatchManager two_tables) ''nodes'')))
     = Map.empty"
proof -
  have f: "DumbWatchManager_Notify [''nodes''] (Arm (NewDumbWatchManager two_tables) ''nodes'')
             two_watches
           = Inr (Arm (NewDumbWatchManager two_tables) ''nodes'', [''nodes''], {7},
                  heap_put 0 \<lparr>group = \<lparr>notify = {}\<rparr>\<rparr> two_watches)"
    by (simp add: DumbWatchManager_Notify_def FullTableWatch_Notify_def NotifyGroup_Notify_def
        tableWatches_Arm NewDumbWatchManager_def two_tables_simps two_watches_def heap_put_def)
  have o: "range_order (armed (Arm (NewDumbWatchManager two_tables) ''nodes'')) [''nodes'']"
    by (simp add: range_order_def dom_armed_Arm NewDumbWatchManager_def)
  from Notify_keeps_armed [OF f o o] f o show ?thesis by blast
qed

subsection \<open>PrefixWatch\<close>

text \<open>The callback never stops a walk, so a walk visits all the entries it is given.\<close>

lemma walk_fired: "st_fired (radix_walk notify_fn es st) = st_fired st @ es"
  by (induction es arbitrary: st) (auto simp: notify_fn_def NotifyGroup_Notify_def)

lemma walk_cleanup:
  "st_cleanup (radix_walk notify_fn es st) = st_cleanup st @ filter (\<lambda>k. k \<noteq> []) (map fst es)"
  by (induction es arbitrary: st) (auto simp: notify_fn_def NotifyGroup_Notify_def)

lemma walk_nxt: "nxt (st_heap (radix_walk notify_fn es st)) = nxt (st_heap st)"
  by (induction es arbitrary: st) (auto simp: notify_fn_def NotifyGroup_Notify_def heap_put_def)

lemma walk_cells:
  "cells (st_heap (radix_walk notify_fn es st)) a =
     (if a \<in> snd ` set es then (cells (st_heap st) a)\<lparr>notify := {}\<rparr> else cells (st_heap st) a)"
proof (induction es arbitrary: st)
  case Nil
  then show ?case by simp
next
  case (Cons e es)
  obtain k v where e: "e = (k, v)" by (cases e)
  define st1 where "st1 = snd (notify_fn k v st)"
  have h1: "cells (st_heap st1) a = (if a = v then (cells (st_heap st) a)\<lparr>notify := {}\<rparr> else cells (st_heap st) a)"
    by (simp add: st1_def notify_fn_def NotifyGroup_Notify_def heap_put_def)
  have step: "radix_walk notify_fn (e # es) st = radix_walk notify_fn es st1"
    by (simp add: e st1_def notify_fn_def NotifyGroup_Notify_def)
  show ?case
    unfolding step Cons.IH h1 by (simp add: e)
qed

lemma walk_woken:
  "st_woken (radix_walk notify_fn es st) =
     st_woken st \<union> (\<Union>e \<in> set es. notify (cells (st_heap st) (snd e)))"
proof (induction es arbitrary: st)
  case Nil
  then show ?case by simp
next
  case (Cons e es)
  obtain k v where e: "e = (k, v)" by (cases e)
  define st1 where "st1 = snd (notify_fn k v st)"
  have h1: "cells (st_heap st1) a = (if a = v then (cells (st_heap st) a)\<lparr>notify := {}\<rparr> else cells (st_heap st) a)" for a
    by (simp add: st1_def notify_fn_def NotifyGroup_Notify_def heap_put_def)
  have w1: "st_woken st1 = st_woken st \<union> notify (cells (st_heap st) v)"
    by (simp add: st1_def notify_fn_def NotifyGroup_Notify_def)
  have step: "radix_walk notify_fn (e # es) st = radix_walk notify_fn es st1"
    by (simp add: e st1_def notify_fn_def NotifyGroup_Notify_def)
  have "(\<Union>e \<in> set es. notify (cells (st_heap st1) (snd e))) \<union> notify (cells (st_heap st) v)
      = (\<Union>e \<in> set es. notify (cells (st_heap st) (snd e))) \<union> notify (cells (st_heap st) v)"
    by (auto simp: h1 split: if_splits)
  then show ?case
    unfolding step Cons.IH w1 by (auto simp: e)
qed

lemma set_path_entries:
  "set (path_entries t p) = {(k, v). prefix k p \<and> map_of t k = Some v}"
  by (force simp: path_entries_def List.map_filter_def)

lemma set_prefix_entries:
  "set (prefix_entries t p) = {e \<in> set t. prefix p (fst e)}"
  by (auto simp: prefix_entries_def)

lemma map_of_foldl_Delete:
  "map_of (foldl radix_Delete t ks) k = (if k \<in> set ks then None else map_of t k)"
  by (induction ks arbitrary: t) (auto simp: radix_Delete_def delete_conv)

lemma set_foldl_Delete:
  "set (foldl radix_Delete t ks) = {e \<in> set t. fst e \<notin> set ks}"
  by (induction ks arbitrary: t) (auto simp: radix_Delete_def AList.delete_eq)


text \<open>What one call of \<^verbatim>\<open>Notify\<close> visits, signals, deletes and leaves.\<close>

lemma Notify_fired:
  "res_fired (PrefixWatch_Notify w h p subtree) =
     path_entries (watches w) p @ (if subtree then prefix_entries (watches w) p else [])"
  by (simp add: PrefixWatch_Notify_def Let_def radix_WalkPath_def radix_WalkPrefix_def walk_fired)

lemma Notify_woken:
  "res_woken (PrefixWatch_Notify w h p subtree) =
     (\<Union>e \<in> set (res_fired (PrefixWatch_Notify w h p subtree)). notify (cells h (snd e)))"
proof -
  let ?st0 = "\<lparr>st_heap = h, st_cleanup = [], st_fired = [], st_woken = {}\<rparr>"
  let ?st1 = "radix_walk notify_fn (path_entries (watches w) p) ?st0"
  have "(\<Union>e \<in> set (prefix_entries (watches w) p). notify (cells (st_heap ?st1) (snd e)))
          \<union> (\<Union>e \<in> set (path_entries (watches w) p). notify (cells h (snd e)))
      = (\<Union>e \<in> set (prefix_entries (watches w) p). notify (cells h (snd e)))
          \<union> (\<Union>e \<in> set (path_entries (watches w) p). notify (cells h (snd e)))"
  proof (intro set_eqI iffI)
    fix x
    assume "x \<in> (\<Union>e \<in> set (prefix_entries (watches w) p). notify (cells (st_heap ?st1) (snd e)))
          \<union> (\<Union>e \<in> set (path_entries (watches w) p). notify (cells h (snd e)))"
    then show "x \<in> (\<Union>e \<in> set (prefix_entries (watches w) p). notify (cells h (snd e)))
          \<union> (\<Union>e \<in> set (path_entries (watches w) p). notify (cells h (snd e)))"
      by (auto simp: walk_cells split: if_splits)
  next
    fix x
    assume "x \<in> (\<Union>e \<in> set (prefix_entries (watches w) p). notify (cells h (snd e)))
          \<union> (\<Union>e \<in> set (path_entries (watches w) p). notify (cells h (snd e)))"
    then consider e where "e \<in> set (path_entries (watches w) p)" "x \<in> notify (cells h (snd e))"
      | e where "e \<in> set (prefix_entries (watches w) p)" "x \<in> notify (cells h (snd e))"
          "snd e \<notin> snd ` set (path_entries (watches w) p)"
      by (fastforce simp: image_iff)
    then show "x \<in> (\<Union>e \<in> set (prefix_entries (watches w) p). notify (cells (st_heap ?st1) (snd e)))
          \<union> (\<Union>e \<in> set (path_entries (watches w) p). notify (cells h (snd e)))"
    proof cases
      case 1
      then show ?thesis by blast
    next
      case 2
      then have "x \<in> notify (cells (st_heap ?st1) (snd e))" by (simp add: walk_cells)
      with 2(1) show ?thesis by blast
    qed
  qed
  then show ?thesis
    unfolding Notify_fired
    by (auto simp: PrefixWatch_Notify_def Let_def radix_WalkPath_def radix_WalkPrefix_def
        walk_woken)
qed

lemma Notify_watches:
  "radix_Get (watches (res_watch (PrefixWatch_Notify w h p subtree))) k =
     (if k \<noteq> [] \<and> k \<in> fst ` set (res_fired (PrefixWatch_Notify w h p subtree)) then None
      else radix_Get (watches w) k)"
  unfolding Notify_fired
  by (auto simp: PrefixWatch_Notify_def Let_def radix_WalkPath_def radix_WalkPrefix_def
      walk_cleanup radix_Get_def map_of_foldl_Delete)

lemma Notify_nxt: "nxt (res_heap (PrefixWatch_Notify w h p subtree)) = nxt h"
  by (simp add: PrefixWatch_Notify_def Let_def radix_WalkPath_def radix_WalkPrefix_def walk_nxt)

lemma fired_in_watches:
  "set (res_fired (PrefixWatch_Notify w h p subtree)) \<subseteq> set (watches w)"
  unfolding Notify_fired
  by (auto simp: set_path_entries set_prefix_entries dest: map_of_SomeD)

text \<open>
  The prefixes of the map stay distinct, and every group of the map has been allocated
  from the store, under \<^verbatim>\<open>GetSubwatch\<close> and under \<^verbatim>\<open>Notify\<close>.
\<close>

lemma set_update_subset: "set (AList.update k v al) \<subseteq> insert (k, v) (set al)"
  by (induction al) auto

lemma GetSubwatch_invariants:
  assumes "GetSubwatch w h k = (g, w', h')"
    and "distinct (map fst (watches w))" and "list_all (\<lambda>e. snd e < nxt h) (watches w)"
  shows "distinct (map fst (watches w')) \<and> list_all (\<lambda>e. snd e < nxt h') (watches w') \<and>
         radix_Get (watches w') k = Some g"
proof (cases "radix_Get (watches w) k")
  case None
  with assms(1) have g: "g = nxt h" and w': "watches w' = AList.update k (nxt h) (watches w)"
    and h': "nxt h' = nxt h + 1"
    by (auto simp: GetSubwatch_def heap_alloc_def radix_Insert_def)
  have "set (AList.update k (nxt h) (watches w)) \<subseteq> insert (k, nxt h) (set (watches w))"
    by (rule set_update_subset)
  with assms(3) have "list_all (\<lambda>e. snd e < nxt h') (watches w')"
    unfolding w' h' list_all_iff by fastforce
  with assms(2) show ?thesis
    by (simp add: w' g distinct_update radix_Get_def update_conv')
next
  case (Some a)
  with assms show ?thesis by (auto simp: GetSubwatch_def)
qed

lemma Notify_invariants:
  assumes "distinct (map fst (watches w))" and "list_all (\<lambda>e. snd e < nxt h) (watches w)"
  shows "distinct (map fst (watches (res_watch (PrefixWatch_Notify w h p subtree)))) \<and>
         list_all (\<lambda>e. snd e < nxt (res_heap (PrefixWatch_Notify w h p subtree)))
           (watches (res_watch (PrefixWatch_Notify w h p subtree)))"
proof -
  have d: "distinct (map fst (foldl radix_Delete t ks))" if "distinct (map fst t)" for t ks
    using that by (induction ks arbitrary: t) (simp_all add: radix_Delete_def distinct_delete)
  have "set (watches (res_watch (PrefixWatch_Notify w h p subtree))) \<subseteq> set (watches w)"
    by (auto simp: PrefixWatch_Notify_def Let_def set_foldl_Delete)
  with assms(2) have "list_all (\<lambda>e. snd e < nxt (res_heap (PrefixWatch_Notify w h p subtree)))
           (watches (res_watch (PrefixWatch_Notify w h p subtree)))"
    unfolding Notify_nxt list_all_iff by blast
  moreover have "distinct (map fst (watches (res_watch (PrefixWatch_Notify w h p subtree))))"
    using assms(1) by (simp add: PrefixWatch_Notify_def Let_def d)
  ultimately show ?thesis by simp
qed

text \<open>The example state, and what the walks of three calls of \<^verbatim>\<open>Notify\<close> visit in it.\<close>

lemma four_watchers_eval:
  "four_watchers =
     (\<lparr>watches = [([], 0), (''/a'', 1), (''/a/b'', 2), (''/a/b/c'', 3)]\<rparr>,
      \<lparr>cells = (\<lambda>_. NotifyGroup_zero)
          (0 := \<lparr>notify = {0}\<rparr>, 1 := \<lparr>notify = {1}\<rparr>, 2 := \<lparr>notify = {2}\<rparr>, 3 := \<lparr>notify = {3}\<rparr>),
       nxt = 4\<rparr>)"
  by (simp add: four_watchers_def watch_prefix_def GetSubwatch_def NewPrefixWatch_def
      heap_empty_def radix_New_def radix_Get_def radix_Insert_def heap_alloc_def heap_put_def
      NotifyGroup_Wait_def NotifyGroup_zero_def eval_nat_numeral)


lemma four_watchers_fired:
  "res_fired (PrefixWatch_Notify (fst four_watchers) (snd four_watchers) ''/a/b'' False)
     = [([], 0), (''/a'', 1), (''/a/b'', 2)]"
  "res_fired (PrefixWatch_Notify (fst four_watchers) (snd four_watchers) ''/a'' False)
     = [([], 0), (''/a'', 1)]"
  "res_fired (PrefixWatch_Notify (fst four_watchers) (snd four_watchers) ''/a'' True)
     = [([], 0), (''/a'', 1), (''/a'', 1), (''/a/b'', 2), (''/a/b/c'', 3)]"
  by (simp_all add: Notify_fired four_watchers_eval path_entries_def prefix_entries_def)

lemma four_watchers_woken:
  "res_woken (PrefixWatch_Notify (fst four_watchers) (snd four_watchers) ''/a/b'' False) = {0, 1, 2}"
  "res_woken (PrefixWatch_Notify (fst four_watchers) (snd four_watchers) ''/a'' False) = {0, 1}"
  "res_woken (PrefixWatch_Notify (fst four_watchers) (snd four_watchers) ''/a'' True) = {0, 1, 2, 3}"
  by (simp_all add: Notify_woken four_watchers_fired) (simp_all add: four_watchers_eval insert_commute)

text \<open>
  Claim C2. In a map with distinct prefixes, \<^verbatim>\<open>Notify(p, subtree)\<close> calls \<^verbatim>\<open>Notify()\<close> on the
  groups of exactly those entries whose key is a prefix of \<open>p\<close> (the empty key and \<open>p\<close>
  itself included) or, when \<open>subtree\<close> is set, has \<open>p\<close> as a prefix; without \<open>subtree\<close> no
  group at a key that strictly extends \<open>p\<close> is fired. The channels signalled are those
  registered with the fired groups. With watchers 0, 1, 2, 3 on the empty prefix,
  \<^verbatim>\<open>/a\<close>, \<^verbatim>\<open>/a/b\<close> and \<^verbatim>\<open>/a/b/c\<close>: \<^verbatim>\<open>Notify("/a/b", false)\<close> wakes 0, 1 and 2 and not 3;
  \<^verbatim>\<open>Notify("/a", false)\<close> wakes 0 and 1, and \<^verbatim>\<open>Notify("/a", true)\<close> wakes 2 and 3 as well.
\<close>

theorem Notify_fires_path_and_subtree:
  assumes "distinct (map fst (watches w))"
  shows "set (res_fired (PrefixWatch_Notify w h p subtree)) =
           {(k, a). radix_Get (watches w) k = Some a \<and> (prefix k p \<or> subtree \<and> prefix p k)} \<and>
         (\<not> subtree \<longrightarrow>
            (\<forall>k a. (k, a) \<in> set (res_fired (PrefixWatch_Notify w h p subtree)) \<longrightarrow>
               \<not> strict_prefix p k)) \<and>
         res_woken (PrefixWatch_Notify w h p subtree) =
           (\<Union>(k, a) \<in> set (res_fired (PrefixWatch_Notify w h p subtree)). notify (cells h a)) \<and>
         res_woken (PrefixWatch_Notify (fst four_watchers) (snd four_watchers) ''/a/b'' False)
           = {0, 1, 2} \<and>
         res_woken (PrefixWatch_Notify (fst four_watchers) (snd four_watchers) ''/a'' False)
           = {0, 1} \<and>
         res_woken (PrefixWatch_Notify (fst four_watchers) (snd four_watchers) ''/a'' True)
           = {0, 1, 2, 3}"
proof -
  have fired: "set (res_fired (PrefixWatch_Notify w h p subtree)) =
           {(k, a). radix_Get (watches w) k = Some a \<and> (prefix k p \<or> subtree \<and> prefix p k)}"
    unfolding Notify_fired using assms
    by (auto simp: set_path_entries set_prefix_entries radix_Get_def)
  have "\<not> strict_prefix p k"
    if "\<not> subtree" "(k, a) \<in> set (res_fired (PrefixWatch_Notify w h p subtree))" for k a
    using that unfolding fired by (auto simp: strict_prefix_def)
  moreover have "res_woken (PrefixWatch_Notify w h p subtree) =
           (\<Union>(k, a) \<in> set (res_fired (PrefixWatch_Notify w h p subtree)). notify (cells h a))"
    by (subst Notify_woken) (simp add: case_prod_unfold)
  ultimately show ?thesis
    using fired four_watchers_woken by (intro conjI allI impI) assumption+
qed

theorem Notify_fires_path_and_subtree_witness:
  "distinct (map fst (watches (fst four_watchers))) \<and>
   set (res_fired (PrefixWatch_Notify (fst four_watchers) (snd four_watchers) ''/a/b'' False)) =
     {(k, a). radix_Get (watches (fst four_watchers)) k = Some a \<and>
              (prefix k ''/a/b'' \<or> False \<and> prefix ''/a/b'' k)} \<and>
   (''/a/b/c'', 3) \<notin> set (res_fired (PrefixWatch_Notify (fst four_watchers) (snd four_watchers) ''/a/b'' False)) \<and>
   res_woken (PrefixWatch_Notify (fst four_watchers) (snd four_watchers) ''/a/b'' False) =
     (\<Union>(k, a) \<in> set (res_fired (PrefixWatch_Notify (fst four_watchers) (snd four_watchers) ''/a/b'' False)).
        notify (cells (snd four_watchers) a))"
proof -
  have d: "distinct (map fst (watches (fst four_watchers)))"
    by (simp add: four_watchers_eval)
  have s: "strict_prefix ''/a/b'' ''/a/b/c''" by (simp add: strict_prefix_def)
  from Notify_fires_path_and_subtree [OF d, of "snd four_watchers" "''/a/b''" False]
  have "set (res_fired (PrefixWatch_Notify (fst four_watchers) (snd four_watchers) ''/a/b'' False)) =
     {(k, a). radix_Get (watches (fst four_watchers)) k = Some a \<and>
              (prefix k ''/a/b'' \<or> False \<and> prefix ''/a/b'' k)}"
    and "\<forall>k a. (k, a) \<in> set (res_fired (PrefixWatch_Notify (fst four_watchers) (snd four_watchers) ''/a/b'' False)) \<longrightarrow>
               \<not> strict_prefix ''/a/b'' k"
    and "res_woken (PrefixWatch_Notify (fst four_watchers) (snd four_watchers) ''/a/b'' False) =
     (\<Union>(k, a) \<in> set (res_fired (PrefixWatch_Notify (fst four_watchers) (snd four_watchers) ''/a/b'' False)).
        notify (cells (snd four_watchers) a))"
    by simp_all
  with d s show ?thesis by (intro conjI) (assumption | blast)+
qed

text \<open>
  Claim C3. After \<^verbatim>\<open>Notify(p, subtree)\<close> the map holds no entry for a key other than the
  empty one that the call has visited, and every other key, the empty one included, has the
  entry it had. For a visited key \<open>k\<close> other than the empty one, a later
  \<^verbatim>\<open>GetSubwatch(k)\<close> allocates a group that is not the fired one nor any group the map held,
  has no channel registered, and is the entry of \<open>k\<close> from then on.
\<close>

theorem Notify_deletes_visited:
  assumes alloc: "list_all (\<lambda>e. snd e < nxt h) (watches w)"
    and r: "r = PrefixWatch_Notify w h p subtree"
    and visited: "(k, a) \<in> set (res_fired r)"
    and nonroot: "k \<noteq> []"
  shows "radix_Get (watches (res_watch r)) k = None \<and>
         (\<forall>k'. radix_Get (watches (res_watch r)) k' =
             (if k' \<noteq> [] \<and> k' \<in> fst ` set (res_fired r) then None
              else radix_Get (watches w) k')) \<and>
         (case GetSubwatch (res_watch r) (res_heap r) k of
            (g, w', h') \<Rightarrow>
              nxt h \<le> g \<and> g \<noteq> a \<and> g \<notin> snd ` set (watches w) \<and> notify (cells h' g) = {} \<and>
              radix_Get (watches w') k = Some g)"
proof -
  have del: "radix_Get (watches (res_watch r)) k' =
             (if k' \<noteq> [] \<and> k' \<in> fst ` set (res_fired r) then None
              else radix_Get (watches w) k')" for k'
    unfolding r by (rule Notify_watches)
  have fresh: "nxt h \<notin> snd ` set (watches w)"
    using alloc by (auto simp: list_all_iff)
  have "(k, a) \<in> set (watches w)" using visited fired_in_watches unfolding r by blast
  with fresh have a: "nxt h \<noteq> a" by force
  have gone: "radix_Get (watches (res_watch r)) k = None"
    using del [of k] visited nonroot by force
  moreover have "nxt (res_heap r) = nxt h" unfolding r by (rule Notify_nxt)
  ultimately have "case GetSubwatch (res_watch r) (res_heap r) k of
            (g, w', h') \<Rightarrow>
              nxt h \<le> g \<and> g \<noteq> a \<and> g \<notin> snd ` set (watches w) \<and> notify (cells h' g) = {} \<and>
              radix_Get (watches w') k = Some g"
    using fresh a
    by (simp add: GetSubwatch_def heap_alloc_def radix_Get_def radix_Insert_def update_conv'
        NotifyGroup_zero_def)
  with gone del show ?thesis by blast
qed

theorem Notify_deletes_visited_witness:
  "list_all (\<lambda>e. snd e < nxt (snd four_watchers)) (watches (fst four_watchers)) \<and>
   (''/a/b'', 2) \<in> set (res_fired (PrefixWatch_Notify (fst four_watchers) (snd four_watchers) ''/a'' True)) \<and>
   ''/a/b'' \<noteq> [] \<and>
   radix_Get (watches (res_watch (PrefixWatch_Notify (fst four_watchers) (snd four_watchers) ''/a'' True)))
     ''/a/b'' = None \<and>
   (case GetSubwatch (res_watch (PrefixWatch_Notify (fst four_watchers) (snd four_watchers) ''/a'' True))
           (res_heap (PrefixWatch_Notify (fst four_watchers) (snd four_watchers) ''/a'' True)) ''/a/b'' of
      (g, w', h') \<Rightarrow>
        nxt (snd four_watchers) \<le> g \<and> g \<noteq> 2 \<and> g \<notin> snd ` set (watches (fst four_watchers)) \<and>
        notify (cells h' g) = {} \<and> radix_Get (watches w') ''/a/b'' = Some g)"
proof -
  have al: "list_all (\<lambda>e. snd e < nxt (snd four_watchers)) (watches (fst four_watchers))"
    by (simp add: four_watchers_eval)
  have v: "(''/a/b'', 2) \<in> set (res_fired (PrefixWatch_Notify (fst four_watchers) (snd four_watchers) ''/a'' True))"
    by (simp add: four_watchers_fired)
  have n: "''/a/b'' \<noteq> []" by simp
  from Notify_deletes_visited [OF al refl v n] al v n show ?thesis
    by (elim conjE) (intro conjI, assumption+)
qed

section \<open>Properties of the catalog store\<close>

subsection \<open>The cascading deletes\<close>

text \<open>What each delete and each loop of deletes does to the tables and to the tracked indices.\<close>

lemma touch_simps:
  "tbl_nodes (fst (touch tb i t)) = tbl_nodes (fst t)"
  "tbl_services (fst (touch tb i t)) = tbl_services (fst t)"
  "tbl_checks (fst (touch tb i t)) = tbl_checks (fst t)"
  "tbl_index (fst (touch tb i t)) = (tbl_index (fst t))(tb \<mapsto> i)"
  "store_watches (fst (touch tb i t)) = store_watches (fst t)"
  by (simp_all add: touch_def)

lemma getCheck_None_iff:
  "getCheck s n c = None \<longleftrightarrow> \<not> list_ex (\<lambda>x. hc_Node x = n \<and> hc_CheckID x = c) (tbl_checks s)"
  by (auto simp: getCheck_def NodeChecks_def find_None_iff list_ex_iff)

lemma getService_None_iff:
  "getService s n sid = None \<longleftrightarrow>
     \<not> list_ex (\<lambda>row. fst row = n \<and> ns_ID (snd row) = sid) (tbl_services s)"
  by (auto simp: getService_def node_services_def find_None_iff list_ex_iff)

lemma GetNode_None_iff:
  "GetNode s n = None \<longleftrightarrow> \<not> list_ex (\<lambda>x. n_Node x = n) (tbl_nodes s)"
  by (auto simp: GetNode_def find_None_iff list_ex_iff)

lemma filter_none: "\<not> list_ex P xs \<Longrightarrow> filter (\<lambda>x. \<not> P x) xs = xs"
  by (induction xs) auto

lemma deleteCheckTxn_simps:
  "tbl_nodes (fst (deleteCheckTxn i n c t)) = tbl_nodes (fst t)"
  "tbl_services (fst (deleteCheckTxn i n c t)) = tbl_services (fst t)"
  "tbl_checks (fst (deleteCheckTxn i n c t)) =
     filter (\<lambda>x. \<not> (hc_Node x = n \<and> hc_CheckID x = c)) (tbl_checks (fst t))"
  "tbl_index (fst (deleteCheckTxn i n c t)) =
     (if list_ex (\<lambda>x. hc_Node x = n \<and> hc_CheckID x = c) (tbl_checks (fst t))
      then (tbl_index (fst t))(''checks'' \<mapsto> i) else tbl_index (fst t))"
  using getCheck_None_iff [of "fst t" n c]
  by (auto simp: deleteCheckTxn_def touch_simps list_ex_iff filter_id_conv split: option.splits)

lemma fold_deleteCheckTxn:
  "tbl_nodes (fst (fold (deleteCheckTxn i n) cs t)) = tbl_nodes (fst t) \<and>
   tbl_services (fst (fold (deleteCheckTxn i n) cs t)) = tbl_services (fst t) \<and>
   tbl_checks (fst (fold (deleteCheckTxn i n) cs t)) =
     filter (\<lambda>x. \<not> (hc_Node x = n \<and> hc_CheckID x \<in> set cs)) (tbl_checks (fst t)) \<and>
   tbl_index (fst (fold (deleteCheckTxn i n) cs t)) =
     (if list_ex (\<lambda>x. hc_Node x = n \<and> hc_CheckID x \<in> set cs) (tbl_checks (fst t))
      then (tbl_index (fst t))(''checks'' \<mapsto> i) else tbl_index (fst t))"
proof (induction cs arbitrary: t)
  case Nil
  then show ?case by (simp add: list_ex_iff)
next
  case (Cons c cs)
  have f: "filter (\<lambda>x. \<not> (hc_Node x = n \<and> hc_CheckID x \<in> set cs))
             (filter (\<lambda>x. \<not> (hc_Node x = n \<and> hc_CheckID x = c)) xs)
           = filter (\<lambda>x. \<not> (hc_Node x = n \<and> hc_CheckID x \<in> set (c # cs))) xs" for xs
    by (induction xs) auto
  let ?t1 = "deleteCheckTxn i n c t"
  have step: "fold (deleteCheckTxn i n) (c # cs) t = fold (deleteCheckTxn i n) cs ?t1" by simp
  note IH = Cons.IH [of ?t1]
  have 1: "tbl_nodes (fst (fold (deleteCheckTxn i n) cs ?t1)) = tbl_nodes (fst t)"
    using IH by (simp add: deleteCheckTxn_simps)
  have 2: "tbl_services (fst (fold (deleteCheckTxn i n) cs ?t1)) = tbl_services (fst t)"
    using IH by (simp add: deleteCheckTxn_simps)
  have 3: "tbl_checks (fst (fold (deleteCheckTxn i n) cs ?t1)) =
     filter (\<lambda>x. \<not> (hc_Node x = n \<and> hc_CheckID x \<in> set (c # cs))) (tbl_checks (fst t))"
    using IH by (simp only: deleteCheckTxn_simps f)
  have 4: "tbl_index (fst (fold (deleteCheckTxn i n) cs ?t1)) =
     (if list_ex (\<lambda>x. hc_Node x = n \<and> hc_CheckID x \<in> set (c # cs)) (tbl_checks (fst t))
      then (tbl_index (fst t))(''checks'' \<mapsto> i) else tbl_index (fst t))"
    using IH by (auto simp: deleteCheckTxn_simps list_ex_iff)
  show ?case unfolding step using 1 2 3 4 by (intro conjI) assumption+
qed


lemma deleteNodeServiceTxn_simps:
  "tbl_nodes (fst (deleteNodeServiceTxn i n sid t)) = tbl_nodes (fst t)"
  "tbl_services (fst (deleteNodeServiceTxn i n sid t)) =
     filter (\<lambda>row. \<not> (fst row = n \<and> ns_ID (snd row) = sid)) (tbl_services (fst t))"
  "tbl_index (fst (deleteNodeServiceTxn i n sid t)) ''nodes'' = tbl_index (fst t) ''nodes''"
  "tbl_index (fst (deleteNodeServiceTxn i n sid t)) ''services'' =
     (if list_ex (\<lambda>row. fst row = n \<and> ns_ID (snd row) = sid) (tbl_services (fst t))
      then Some i else tbl_index (fst t) ''services'')"
  using getService_None_iff [of "fst t" n sid]
  by (auto simp: deleteNodeServiceTxn_def Let_def touch_simps fold_deleteCheckTxn
      list_ex_iff filter_id_conv split: option.splits)

lemma deleteNodeServiceTxn_checks:
  "set (tbl_checks (fst (deleteNodeServiceTxn i n sid t))) \<subseteq> set (tbl_checks (fst t)) \<and>
   (tbl_checks (fst (deleteNodeServiceTxn i n sid t)) = tbl_checks (fst t) \<and>
      tbl_index (fst (deleteNodeServiceTxn i n sid t)) ''checks'' = tbl_index (fst t) ''checks''
    \<or> tbl_index (fst (deleteNodeServiceTxn i n sid t)) ''checks'' = Some i)"
proof (cases "getService (fst t) n sid")
  case None
  then show ?thesis by (simp add: deleteNodeServiceTxn_def)
next
  case (Some a)
  let ?cs = "map hc_CheckID (filter (\<lambda>c. hc_ServiceID c = sid) (NodeChecks (fst t) n))"
  let ?t1 = "fold (deleteCheckTxn i n) ?cs t"
  have c: "tbl_checks (fst (deleteNodeServiceTxn i n sid t)) = tbl_checks (fst ?t1)"
    and x: "tbl_index (fst (deleteNodeServiceTxn i n sid t)) ''checks'' = tbl_index (fst ?t1) ''checks''"
    using Some by (simp_all add: deleteNodeServiceTxn_def Let_def touch_simps)
  show ?thesis
  proof (cases "list_ex (\<lambda>x. hc_Node x = n \<and> hc_CheckID x \<in> set ?cs) (tbl_checks (fst t))")
    case True
    then show ?thesis unfolding c x by (auto simp: fold_deleteCheckTxn)
  next
    case False
    then have "filter (\<lambda>x. \<not> (hc_Node x = n \<and> hc_CheckID x \<in> set ?cs)) (tbl_checks (fst t))
                 = tbl_checks (fst t)"
      by (rule filter_none)
    with False show ?thesis unfolding c x by (simp add: fold_deleteCheckTxn)
  qed
qed

lemma fold_deleteNodeServiceTxn:
  "tbl_nodes (fst (fold (deleteNodeServiceTxn i n) ss t)) = tbl_nodes (fst t) \<and>
   tbl_services (fst (fold (deleteNodeServiceTxn i n) ss t)) =
     filter (\<lambda>row. \<not> (fst row = n \<and> ns_ID (snd row) \<in> set ss)) (tbl_services (fst t)) \<and>
   tbl_index (fst (fold (deleteNodeServiceTxn i n) ss t)) ''nodes'' = tbl_index (fst t) ''nodes'' \<and>
   tbl_index (fst (fold (deleteNodeServiceTxn i n) ss t)) ''services'' =
     (if list_ex (\<lambda>row. fst row = n \<and> ns_ID (snd row) \<in> set ss) (tbl_services (fst t))
      then Some i else tbl_index (fst t) ''services'')"
proof (induction ss arbitrary: t)
  case Nil
  then show ?case by (simp add: list_ex_iff)
next
  case (Cons c cs)
  have f: "filter (\<lambda>row. \<not> (fst row = n \<and> ns_ID (snd row) \<in> set cs))
             (filter (\<lambda>row. \<not> (fst row = n \<and> ns_ID (snd row) = c)) xs)
           = filter (\<lambda>row. \<not> (fst row = n \<and> ns_ID (snd row) \<in> set (c # cs))) xs" for xs :: "(string \<times> NodeService) list"
    by (induction xs) auto
  let ?t1 = "deleteNodeServiceTxn i n c t"
  have step: "fold (deleteNodeServiceTxn i n) (c # cs) t = fold (deleteNodeServiceTxn i n) cs ?t1"
    by simp
  note IH = Cons.IH [of ?t1]
  have 1: "tbl_nodes (fst (fold (deleteNodeServiceTxn i n) cs ?t1)) = tbl_nodes (fst t)"
    using IH by (simp add: deleteNodeServiceTxn_simps)
  have 2: "tbl_services (fst (fold (deleteNodeServiceTxn i n) cs ?t1)) =
     filter (\<lambda>row. \<not> (fst row = n \<and> ns_ID (snd row) \<in> set (c # cs))) (tbl_services (fst t))"
    using IH by (simp only: deleteNodeServiceTxn_simps f)
  have 3: "tbl_index (fst (fold (deleteNodeServiceTxn i n) cs ?t1)) ''nodes'' = tbl_index (fst t) ''nodes''"
    using IH by (simp add: deleteNodeServiceTxn_simps)
  have 4: "tbl_index (fst (fold (deleteNodeServiceTxn i n) cs ?t1)) ''services'' =
     (if list_ex (\<lambda>row. fst row = n \<and> ns_ID (snd row) \<in> set (c # cs)) (tbl_services (fst t))
      then Some i else tbl_index (fst t) ''services'')"
  proof -
    have eqv: "list_ex (\<lambda>row. fst row = n \<and> ns_ID (snd row) \<in> set (c # cs)) (tbl_services (fst t))
      \<longleftrightarrow> list_ex (\<lambda>row. fst row = n \<and> ns_ID (snd row) = c) (tbl_services (fst t))
        \<or> list_ex (\<lambda>row. fst row = n \<and> ns_ID (snd row) \<in> set cs) (tbl_services (fst ?t1))"
      unfolding deleteNodeServiceTxn_simps list_ex_iff by (auto; force)
    from IH have "tbl_index (fst (fold (deleteNodeServiceTxn i n) cs ?t1)) ''services'' =
       (if list_ex (\<lambda>row. fst row = n \<and> ns_ID (snd row) \<in> set cs) (tbl_services (fst ?t1))
        then Some i else tbl_index (fst ?t1) ''services'')" by blast
    then show ?thesis unfolding eqv deleteNodeServiceTxn_simps(4) by simp
  qed
  show ?case unfolding step using 1 2 3 4 by (intro conjI) assumption+
qed

lemma fold_deleteNodeServiceTxn_checks:
  "set (tbl_checks (fst (fold (deleteNodeServiceTxn i n) ss t))) \<subseteq> set (tbl_checks (fst t)) \<and>
   (tbl_checks (fst (fold (deleteNodeServiceTxn i n) ss t)) = tbl_checks (fst t) \<and>
      tbl_index (fst (fold (deleteNodeServiceTxn i n) ss t)) ''checks'' = tbl_index (fst t) ''checks''
    \<or> tbl_index (fst (fold (deleteNodeServiceTxn i n) ss t)) ''checks'' = Some i)"
proof (induction ss arbitrary: t)
  case Nil
  then show ?case by simp
next
  case (Cons c cs)
  let ?t1 = "deleteNodeServiceTxn i n c t"
  have step: "fold (deleteNodeServiceTxn i n) (c # cs) t = fold (deleteNodeServiceTxn i n) cs ?t1"
    by simp
  from Cons.IH [of ?t1] deleteNodeServiceTxn_checks [of i n c t]
  show ?case unfolding step by auto
qed


lemma deleteNodeTxn_cascade:
  assumes node: "GetNode (fst t) N \<noteq> None"
  shows "tbl_nodes (fst (deleteNodeTxn i N t)) = filter (\<lambda>n. n_Node n \<noteq> N) (tbl_nodes (fst t))"
    and "tbl_services (fst (deleteNodeTxn i N t)) = filter (\<lambda>row. fst row \<noteq> N) (tbl_services (fst t))"
    and "NodeChecks (fst (deleteNodeTxn i N t)) N = []"
    and "tbl_index (fst (deleteNodeTxn i N t)) ''nodes'' = Some i"
    and "node_services (fst t) N \<noteq> [] \<Longrightarrow> tbl_index (fst (deleteNodeTxn i N t)) ''services'' = Some i"
    and "NodeChecks (fst t) N \<noteq> [] \<Longrightarrow> tbl_index (fst (deleteNodeTxn i N t)) ''checks'' = Some i"
proof -
  let ?ss = "map ns_ID (node_services (fst t) N)"
  let ?t1 = "fold (deleteNodeServiceTxn i N) ?ss t"
  let ?cs = "map hc_CheckID (NodeChecks (fst ?t1) N)"
  let ?t2 = "fold (deleteCheckTxn i N) ?cs ?t1"
  have unf: "deleteNodeTxn i N t =
      touch ''nodes'' i
        ((fst ?t2)\<lparr>tbl_nodes := filter (\<lambda>n. n_Node n \<noteq> N) (tbl_nodes (fst ?t2))\<rparr>, snd ?t2)"
    using node by (auto simp: deleteNodeTxn_def Let_def)
  note p1 = fold_deleteNodeServiceTxn [of i N ?ss t]
  note p1c = fold_deleteNodeServiceTxn_checks [of i N ?ss t]
  note p2 = fold_deleteCheckTxn [of i N ?cs ?t1]
  show "tbl_nodes (fst (deleteNodeTxn i N t)) = filter (\<lambda>n. n_Node n \<noteq> N) (tbl_nodes (fst t))"
    unfolding unf using p1 p2 by (simp add: touch_def)
  have all_ids: "(fst row = N \<and> ns_ID (snd row) \<in> set ?ss) = (fst row = N)"
    if "row \<in> set (tbl_services (fst t))" for row
    using that by (auto simp: node_services_def)
  have "tbl_services (fst ?t2) = filter (\<lambda>row. \<not> (fst row = N \<and> ns_ID (snd row) \<in> set ?ss)) (tbl_services (fst t))"
    using p1 p2 by simp
  also have "\<dots> = filter (\<lambda>row. fst row \<noteq> N) (tbl_services (fst t))"
  proof (rule filter_cong)
    fix row assume "row \<in> set (tbl_services (fst t))"
    from all_ids [OF this]
    show "(\<not> (fst row = N \<and> ns_ID (snd row) \<in> set ?ss)) = (fst row \<noteq> N)" by blast
  qed simp
  finally show "tbl_services (fst (deleteNodeTxn i N t)) = filter (\<lambda>row. fst row \<noteq> N) (tbl_services (fst t))"
    unfolding unf by (simp add: touch_def)
  have "tbl_checks (fst ?t2) =
      filter (\<lambda>x. \<not> (hc_Node x = N \<and> hc_CheckID x \<in> set ?cs)) (tbl_checks (fst ?t1))"
    using p2 by simp
  then have "NodeChecks (fst ?t2) N = []"
    by (auto simp: NodeChecks_def filter_empty_conv)
  then show "NodeChecks (fst (deleteNodeTxn i N t)) N = []"
    unfolding unf by (simp add: touch_def NodeChecks_def)
  show "tbl_index (fst (deleteNodeTxn i N t)) ''nodes'' = Some i"
    unfolding unf by (simp add: touch_def)
  show "tbl_index (fst (deleteNodeTxn i N t)) ''services'' = Some i"
    if "node_services (fst t) N \<noteq> []"
  proof -
    from that obtain row where "row \<in> set (tbl_services (fst t))" "fst row = N"
      by (auto simp: node_services_def filter_empty_conv)
    then have "list_ex (\<lambda>row. fst row = N \<and> ns_ID (snd row) \<in> set ?ss) (tbl_services (fst t))"
      using all_ids by (auto simp: list_ex_iff)
    with p1 have "tbl_index (fst ?t1) ''services'' = Some i" by simp
    with p2 have "tbl_index (fst ?t2) ''services'' = Some i" by simp
    then show ?thesis unfolding unf by (simp add: touch_def)
  qed
  show "tbl_index (fst (deleteNodeTxn i N t)) ''checks'' = Some i"
    if "NodeChecks (fst t) N \<noteq> []"
  proof -
    from that obtain x where x: "x \<in> set (tbl_checks (fst t))" "hc_Node x = N"
      by (auto simp: NodeChecks_def filter_empty_conv)
    have "tbl_index (fst ?t2) ''checks'' = Some i"
    proof (cases "list_ex (\<lambda>x. hc_Node x = N \<and> hc_CheckID x \<in> set ?cs) (tbl_checks (fst ?t1))")
      case True
      with p2 show ?thesis by simp
    next
      case False
      then have "x \<notin> set (tbl_checks (fst ?t1))"
        using x by (auto simp: list_ex_iff NodeChecks_def)
      with x have "tbl_checks (fst ?t1) \<noteq> tbl_checks (fst t)" by auto
      with p1c have "tbl_index (fst ?t1) ''checks'' = Some i" by blast
      with p2 False show ?thesis by simp
    qed
    then show ?thesis unfolding unf by (simp add: touch_def)
  qed
qed




subsection \<open>The scenario of the tests\<close>

lemmas eval_defs = EnsureNode_def EnsureService_def EnsureCheck_def DeleteNodeService_def
  write_txn_def ensureNodeTxn_def ensureServiceTxn_def ensureCheckTxn_def deleteNodeServiceTxn_def
  deleteCheckTxn_def touch_def upsert_def GetNode_def getService_def getCheck_def NodeChecks_def
  node_services_def NewDumbWatchManager_def Arm_def
  testRegisterNode_def testRegisterService_def testRegisterCheck_def

lemma scenario_node_eval:
  "scenario_node =
     \<lparr>tbl_nodes = [\<lparr>n_Node = ''node1'', n_Address = [], n_CreateIndex = 1, n_ModifyIndex = 1\<rparr>],
      tbl_services = [], tbl_checks = [], tbl_index = [''nodes'' \<mapsto> 1],
      store_watches = store_watches NewStateStore\<rparr>"
  "wr_err (testRegisterNode NewStateStore 1 ''node1'') = None"
  by (simp_all add: scenario_node_def eval_defs NewStateStore_def)

lemma scenario_service_eval:
  "scenario_service =
     \<lparr>tbl_nodes = [\<lparr>n_Node = ''node1'', n_Address = [], n_CreateIndex = 1, n_ModifyIndex = 1\<rparr>],
      tbl_services =
        [(''node1'', \<lparr>ns_ID = ''service1'', ns_Service = [], ns_Tags = [], ns_Address = ''1.1.1.1'',
           ns_Port = 1111, ns_CreateIndex = 2, ns_ModifyIndex = 2\<rparr>)],
      tbl_checks = [], tbl_index = [''nodes'' \<mapsto> 1, ''services'' \<mapsto> 2],
      store_watches = store_watches NewStateStore\<rparr>"
  "wr_err (testRegisterService scenario_node 2 ''node1'' ''service1'') = None"
  by (simp_all add: scenario_service_def scenario_node_eval eval_defs)

lemma scenario_check_eval:
  "scenario_check =
     \<lparr>tbl_nodes = [\<lparr>n_Node = ''node1'', n_Address = [], n_CreateIndex = 1, n_ModifyIndex = 1\<rparr>],
      tbl_services =
        [(''node1'', \<lparr>ns_ID = ''service1'', ns_Service = [], ns_Tags = [], ns_Address = ''1.1.1.1'',
           ns_Port = 1111, ns_CreateIndex = 2, ns_ModifyIndex = 2\<rparr>)],
      tbl_checks =
        [\<lparr>hc_Node = ''node1'', hc_CheckID = ''check1'', hc_Name = [], hc_Status = [],
          hc_Notes = [], hc_Output = [], hc_ServiceID = ''service1'', hc_ServiceName = [],
          hc_CreateIndex = 3, hc_ModifyIndex = 3\<rparr>],
      tbl_index = [''nodes'' \<mapsto> 1, ''services'' \<mapsto> 2, ''checks'' \<mapsto> 3],
      store_watches = store_watches NewStateStore\<rparr>"
  "wr_err (testRegisterCheck scenario_service 3 ''node1'' ''service1'' ''check1'') = None"
  by (simp_all add: scenario_check_def scenario_service_eval eval_defs)

lemma scenario_deleted_eval:
  "scenario_deleted =
     \<lparr>tbl_nodes = [\<lparr>n_Node = ''node1'', n_Address = [], n_CreateIndex = 1, n_ModifyIndex = 1\<rparr>],
      tbl_services = [], tbl_checks = [],
      tbl_index = [''nodes'' \<mapsto> 1, ''services'' \<mapsto> 4, ''checks'' \<mapsto> 4],
      store_watches = store_watches NewStateStore\<rparr>"
  "wr_err (DeleteNodeService scenario_check 4 ''node1'' ''service1'') = None"
  by (simp_all add: scenario_deleted_def scenario_check_eval eval_defs fun_upd_twist)

text \<open>
  Claim C6. The scenario of the tests: node \<^verbatim>\<open>node1\<close> registered at index 1, service
  \<^verbatim>\<open>service1\<close> on it at index 2, check \<^verbatim>\<open>check1\<close> tied to that service at index 3. The
  node then has exactly that one check, created and modified at index 3. After
  \<^verbatim>\<open>DeleteNodeService(4, "node1", "service1")\<close> the node has no check and no service, and
  the tracked indices of the checks and of the services table are both 4.
\<close>

theorem scenario_DeleteNodeService:
  "wr_err (testRegisterNode NewStateStore 1 ''node1'') = None \<and>
   wr_err (testRegisterService scenario_node 2 ''node1'' ''service1'') = None \<and>
   wr_err (testRegisterCheck scenario_service 3 ''node1'' ''service1'' ''check1'') = None \<and>
   map (\<lambda>c. (hc_CheckID c, hc_ServiceID c, hc_CreateIndex c, hc_ModifyIndex c))
     (NodeChecks scenario_check ''node1'') = [(''check1'', ''service1'', 3, 3)] \<and>
   wr_err (DeleteNodeService scenario_check 4 ''node1'' ''service1'') = None \<and>
   NodeChecks scenario_deleted ''node1'' = [] \<and>
   maxIndex scenario_deleted ''checks'' = 4 \<and>
   node_services scenario_deleted ''node1'' = [] \<and>
   maxIndex scenario_deleted ''services'' = 4"
proof -
  have "map (\<lambda>c. (hc_CheckID c, hc_ServiceID c, hc_CreateIndex c, hc_ModifyIndex c))
     (NodeChecks scenario_check ''node1'') = [(''check1'', ''service1'', 3, 3)]"
    by (simp add: scenario_check_eval(1) NodeChecks_def)
  moreover have "NodeChecks scenario_deleted ''node1'' = []"
    and "node_services scenario_deleted ''node1'' = []"
    and "maxIndex scenario_deleted ''checks'' = 4"
    and "maxIndex scenario_deleted ''services'' = 4"
    by (simp_all add: scenario_deleted_eval(1) NodeChecks_def node_services_def maxIndex_def)
  ultimately show ?thesis
    using scenario_node_eval(2) scenario_service_eval(2) scenario_check_eval(2)
      scenario_deleted_eval(2)
    by (intro conjI) assumption+
qed


subsection \<open>Deleting a node\<close>

lemma deleteNodeServiceTxn_no_checks:
  "NodeChecks (fst t) n = [] \<Longrightarrow>
     tbl_checks (fst (deleteNodeServiceTxn i n sid t)) = tbl_checks (fst t) \<and>
     tbl_index (fst (deleteNodeServiceTxn i n sid t)) ''checks'' = tbl_index (fst t) ''checks''"
  by (simp add: deleteNodeServiceTxn_def Let_def touch_simps split: option.splits)

lemma fold_deleteNodeServiceTxn_no_checks:
  "NodeChecks (fst t) n = [] \<Longrightarrow>
     tbl_checks (fst (fold (deleteNodeServiceTxn i n) ss t)) = tbl_checks (fst t) \<and>
     tbl_index (fst (fold (deleteNodeServiceTxn i n) ss t)) ''checks'' = tbl_index (fst t) ''checks''"
proof (induction ss arbitrary: t)
  case Nil
  then show ?case by simp
next
  case (Cons c cs)
  let ?t1 = "deleteNodeServiceTxn i n c t"
  from deleteNodeServiceTxn_no_checks [OF Cons.prems, of i c]
  have same: "tbl_checks (fst ?t1) = tbl_checks (fst t)"
    and idx: "tbl_index (fst ?t1) ''checks'' = tbl_index (fst t) ''checks''" by simp_all
  from same Cons.prems have "NodeChecks (fst ?t1) n = []" by (simp add: NodeChecks_def)
  from Cons.IH [OF this] same idx show ?case by simp
qed

lemma deleteNodeTxn_untouched:
  assumes node: "GetNode (fst t) N \<noteq> None"
  shows "node_services (fst t) N = [] \<Longrightarrow>
           tbl_index (fst (deleteNodeTxn i N t)) ''services'' = tbl_index (fst t) ''services''"
    and "NodeChecks (fst t) N = [] \<Longrightarrow>
           tbl_index (fst (deleteNodeTxn i N t)) ''checks'' = tbl_index (fst t) ''checks''"
proof -
  let ?ss = "map ns_ID (node_services (fst t) N)"
  let ?t1 = "fold (deleteNodeServiceTxn i N) ?ss t"
  let ?cs = "map hc_CheckID (NodeChecks (fst ?t1) N)"
  let ?t2 = "fold (deleteCheckTxn i N) ?cs ?t1"
  have unf: "deleteNodeTxn i N t =
      touch ''nodes'' i
        ((fst ?t2)\<lparr>tbl_nodes := filter (\<lambda>n. n_Node n \<noteq> N) (tbl_nodes (fst ?t2))\<rparr>, snd ?t2)"
    using node by (auto simp: deleteNodeTxn_def Let_def)
  note p2 = fold_deleteCheckTxn [of i N ?cs ?t1]
  show "tbl_index (fst (deleteNodeTxn i N t)) ''services'' = tbl_index (fst t) ''services''"
    if "node_services (fst t) N = []"
  proof -
    from that have "?t1 = t" by simp
    with p2 have "tbl_index (fst ?t2) ''services'' = tbl_index (fst t) ''services''" by simp
    then show ?thesis unfolding unf by (simp add: touch_def)
  qed
  show "tbl_index (fst (deleteNodeTxn i N t)) ''checks'' = tbl_index (fst t) ''checks''"
    if "NodeChecks (fst t) N = []"
  proof -
    from fold_deleteNodeServiceTxn_no_checks [OF that, of i ?ss]
    have same: "tbl_checks (fst ?t1) = tbl_checks (fst t)"
      and idx: "tbl_index (fst ?t1) ''checks'' = tbl_index (fst t) ''checks''" by simp_all
    from same that have "?cs = []" by (simp add: NodeChecks_def)
    then have "?t2 = ?t1" by simp
    with idx show ?thesis unfolding unf by (simp add: touch_def)
  qed
qed

lemma NodeServices_None: "GetNode s n = None \<Longrightarrow> NodeServices s n = None"
  by (simp add: NodeServices_def)

text \<open>
  Claim C1. \<^verbatim>\<open>DeleteNode(i, N)\<close> of an existing node succeeds; afterwards \<^verbatim>\<open>GetNode(N)\<close>
  and \<^verbatim>\<open>NodeServices(N)\<close> return not-found, no service row and no check of \<open>N\<close> is left,
  the tracked index of the nodes table is \<open>i\<close>, and so is that of the services table and
  of the checks table when \<open>N\<close> had a service, respectively a check; a table the cascade
  removed nothing from keeps its index.
\<close>

theorem DeleteNode_cascade:
  assumes node: "GetNode s N \<noteq> None"
  shows "wr_err (DeleteNode s i N) = None \<and>
         GetNode (wr_store (DeleteNode s i N)) N = None \<and>
         NodeServices (wr_store (DeleteNode s i N)) N = None \<and>
         node_services (wr_store (DeleteNode s i N)) N = [] \<and>
         NodeChecks (wr_store (DeleteNode s i N)) N = [] \<and>
         maxIndex (wr_store (DeleteNode s i N)) ''nodes'' = i \<and>
         maxIndex (wr_store (DeleteNode s i N)) ''services'' =
           (if node_services s N = [] then maxIndex s ''services'' else i) \<and>
         maxIndex (wr_store (DeleteNode s i N)) ''checks'' =
           (if NodeChecks s N = [] then maxIndex s ''checks'' else i)"
proof -
  let ?t = "(s, NewDumbWatchManager (store_watches s))"
  let ?s' = "fst (deleteNodeTxn i N ?t)"
  have r: "wr_err (DeleteNode s i N) = None" "wr_store (DeleteNode s i N) = ?s'"
    by (simp_all add: DeleteNode_def write_txn_def split: prod.splits)
  from node have n: "GetNode (fst ?t) N \<noteq> None" by simp
  note c = deleteNodeTxn_cascade [OF n, of i] and u = deleteNodeTxn_untouched [OF n, of i]
  have gone: "GetNode ?s' N = None"
    by (simp add: GetNode_def c(1) find_None_iff)
  have "node_services ?s' N = []"
    by (simp add: node_services_def c(2) filter_empty_conv)
  moreover have "maxIndex ?s' ''nodes'' = i" by (simp add: maxIndex_def c(4))
  moreover have "maxIndex ?s' ''services'' =
           (if node_services s N = [] then maxIndex s ''services'' else i)"
    using c(5) u(1) by (simp add: maxIndex_def)
  moreover have "maxIndex ?s' ''checks'' = (if NodeChecks s N = [] then maxIndex s ''checks'' else i)"
    using c(6) u(2) by (simp add: maxIndex_def)
  ultimately show ?thesis
    unfolding r using gone c(3) NodeServices_None [OF gone] by simp
qed

theorem DeleteNode_cascade_witness:
  "GetNode scenario_check ''node1'' \<noteq> None \<and>
   node_services scenario_check ''node1'' \<noteq> [] \<and>
   NodeChecks scenario_check ''node1'' \<noteq> [] \<and>
   wr_err (DeleteNode scenario_check 5 ''node1'') = None \<and>
   GetNode (wr_store (DeleteNode scenario_check 5 ''node1'')) ''node1'' = None \<and>
   NodeServices (wr_store (DeleteNode scenario_check 5 ''node1'')) ''node1'' = None \<and>
   NodeChecks (wr_store (DeleteNode scenario_check 5 ''node1'')) ''node1'' = [] \<and>
   maxIndex (wr_store (DeleteNode scenario_check 5 ''node1'')) ''nodes'' = 5 \<and>
   maxIndex (wr_store (DeleteNode scenario_check 5 ''node1'')) ''services'' = 5 \<and>
   maxIndex (wr_store (DeleteNode scenario_check 5 ''node1'')) ''checks'' = 5"
proof -
  have n: "GetNode scenario_check ''node1'' \<noteq> None"
    and sv: "node_services scenario_check ''node1'' \<noteq> []"
    and ch: "NodeChecks scenario_check ''node1'' \<noteq> []"
    by (simp_all add: scenario_check_eval(1) GetNode_def node_services_def NodeChecks_def)
  from DeleteNode_cascade [OF n, of 5] n sv ch show ?thesis by simp
qed

subsection \<open>Upserts and their checks\<close>

lemma find_upsert:
  "same r \<Longrightarrow> find same (upsert same r rows) = Some r"
proof (cases "list_ex same rows")
  case True
  assume r: "same r"
  have "list_ex same xs \<Longrightarrow> find same (map (\<lambda>x. if same x then r else x) xs) = Some r" for xs
    using r by (induction xs) auto
  with True show ?thesis by (simp add: upsert_def)
next
  case False
  assume r: "same r"
  have "\<not> list_ex same xs \<Longrightarrow> find same (xs @ [r]) = Some r" for xs
    using r by (induction xs) auto
  with False show ?thesis by (simp add: upsert_def)
qed

lemma upsert_again:
  "same r \<Longrightarrow> upsert same r (upsert same r rows) = upsert same r rows"
proof -
  assume r: "same r"
  have ex: "list_ex same (upsert same r rows)"
    using r by (auto simp: upsert_def list_ex_iff)
  have "\<forall>x \<in> set (upsert same r rows). same x \<longrightarrow> x = r"
    by (auto simp: upsert_def list_ex_iff)
  then have "map (\<lambda>x. if same x then r else x) (upsert same r rows) = upsert same r rows"
    by (intro map_idI) auto
  with ex show ?thesis by (subst (1) upsert_def) simp
qed

lemma EnsureNode_store:
  "wr_err (EnsureNode s i n) = None"
  "wr_store (EnsureNode s i n) =
     s\<lparr>tbl_nodes :=
         upsert (\<lambda>x. n_Node x = n_Node n)
           (n\<lparr>n_CreateIndex := (case GetNode s (n_Node n) of None \<Rightarrow> i | Some e \<Rightarrow> n_CreateIndex e),
              n_ModifyIndex := i\<rparr>)
           (tbl_nodes s),
       tbl_index := (tbl_index s)(''nodes'' \<mapsto> i)\<rparr>"
  by (simp_all add: EnsureNode_def write_txn_def ensureNodeTxn_def touch_def Let_def
      split: option.splits)

lemma GetNode_EnsureNode:
  "GetNode (wr_store (EnsureNode s i n)) (n_Node n) =
     Some (n\<lparr>n_CreateIndex := (case GetNode s (n_Node n) of None \<Rightarrow> i | Some e \<Rightarrow> n_CreateIndex e),
             n_ModifyIndex := i\<rparr>)"
  unfolding EnsureNode_store GetNode_def by (simp add: find_upsert)

text \<open>
  Claim C5. \<^verbatim>\<open>EnsureNode(i, n)\<close> succeeds. When no node has the name of \<open>n\<close> it stores \<open>n\<close>
  with create and modify index \<open>i\<close>; when a node has it, it stores \<open>n\<close> with that node's
  create index and modify index \<open>i\<close>. A second \<^verbatim>\<open>EnsureNode(i, n)\<close> with the same content
  succeeds and leaves the store as the first left it.
\<close>

theorem EnsureNode_upsert:
  "wr_err (EnsureNode s i n) = None \<and>
   (GetNode s (n_Node n) = None \<longrightarrow>
      GetNode (wr_store (EnsureNode s i n)) (n_Node n)
        = Some (n\<lparr>n_CreateIndex := i, n_ModifyIndex := i\<rparr>)) \<and>
   (\<forall>e. GetNode s (n_Node n) = Some e \<longrightarrow>
      GetNode (wr_store (EnsureNode s i n)) (n_Node n)
        = Some (n\<lparr>n_CreateIndex := n_CreateIndex e, n_ModifyIndex := i\<rparr>)) \<and>
   wr_err (EnsureNode (wr_store (EnsureNode s i n)) i n) = None \<and>
   wr_store (EnsureNode (wr_store (EnsureNode s i n)) i n) = wr_store (EnsureNode s i n)"
proof -
  let ?s1 = "wr_store (EnsureNode s i n)"
  let ?r = "n\<lparr>n_CreateIndex := (case GetNode s (n_Node n) of None \<Rightarrow> i | Some e \<Rightarrow> n_CreateIndex e),
             n_ModifyIndex := i\<rparr>"
  have g: "GetNode ?s1 (n_Node n) = Some ?r" by (rule GetNode_EnsureNode)
  have "wr_store (EnsureNode ?s1 i n) =
     ?s1\<lparr>tbl_nodes := upsert (\<lambda>x. n_Node x = n_Node n) ?r (tbl_nodes ?s1),
         tbl_index := (tbl_index ?s1)(''nodes'' \<mapsto> i)\<rparr>"
    by (subst EnsureNode_store(2)) (simp add: g)
  also have "\<dots> = ?s1"
    by (simp add: EnsureNode_store(2) upsert_again)
  finally have idem: "wr_store (EnsureNode ?s1 i n) = ?s1" .
  from g idem show ?thesis by (simp add: EnsureNode_store(1))
qed


theorem EnsureNode_upsert_witness:
  "GetNode NewStateStore ''node1'' = None \<and>
   GetNode (wr_store (EnsureNode NewStateStore 1
       \<lparr>n_Node = ''node1'', n_Address = ''1.1.1.1'', n_CreateIndex = 0, n_ModifyIndex = 0\<rparr>)) ''node1''
     = Some \<lparr>n_Node = ''node1'', n_Address = ''1.1.1.1'', n_CreateIndex = 1, n_ModifyIndex = 1\<rparr> \<and>
   GetNode scenario_node ''node1''
     = Some \<lparr>n_Node = ''node1'', n_Address = [], n_CreateIndex = 1, n_ModifyIndex = 1\<rparr> \<and>
   GetNode (wr_store (EnsureNode scenario_node 2
       \<lparr>n_Node = ''node1'', n_Address = ''1.1.1.2'', n_CreateIndex = 0, n_ModifyIndex = 0\<rparr>)) ''node1''
     = Some \<lparr>n_Node = ''node1'', n_Address = ''1.1.1.2'', n_CreateIndex = 1, n_ModifyIndex = 2\<rparr> \<and>
   wr_store (EnsureNode (wr_store (EnsureNode scenario_node 2
       \<lparr>n_Node = ''node1'', n_Address = ''1.1.1.2'', n_CreateIndex = 0, n_ModifyIndex = 0\<rparr>)) 2
       \<lparr>n_Node = ''node1'', n_Address = ''1.1.1.2'', n_CreateIndex = 0, n_ModifyIndex = 0\<rparr>)
     = wr_store (EnsureNode scenario_node 2
       \<lparr>n_Node = ''node1'', n_Address = ''1.1.1.2'', n_CreateIndex = 0, n_ModifyIndex = 0\<rparr>)"
proof -
  have a: "GetNode NewStateStore ''node1'' = None"
    by (simp add: GetNode_def NewStateStore_def)
  have b: "GetNode scenario_node ''node1''
     = Some \<lparr>n_Node = ''node1'', n_Address = [], n_CreateIndex = 1, n_ModifyIndex = 1\<rparr>"
    by (simp add: GetNode_def scenario_node_eval(1))
  from EnsureNode_upsert [of NewStateStore 1
      "\<lparr>n_Node = ''node1'', n_Address = ''1.1.1.1'', n_CreateIndex = 0, n_ModifyIndex = 0\<rparr>"]
    EnsureNode_upsert [of scenario_node 2
      "\<lparr>n_Node = ''node1'', n_Address = ''1.1.1.2'', n_CreateIndex = 0, n_ModifyIndex = 0\<rparr>"]
    a b
  show ?thesis by simp
qed

lemma EnsureService_missing_node:
  "GetNode s name = None \<Longrightarrow>
     EnsureService s i name svc = \<lparr>wr_err = Some ErrMissingNode, wr_store = s, wr_watches = None\<rparr>"
  by (simp add: EnsureService_def write_txn_def ensureServiceTxn_def)

lemma EnsureCheck_missing_node:
  "GetNode s (hc_Node c) = None \<Longrightarrow>
     EnsureCheck s i c = \<lparr>wr_err = Some ErrMissingNode, wr_store = s, wr_watches = None\<rparr>"
  by (simp add: EnsureCheck_def write_txn_def ensureCheckTxn_def)

lemma EnsureCheck_missing_service:
  "GetNode s (hc_Node c) \<noteq> None \<Longrightarrow> hc_ServiceID c \<noteq> [] \<Longrightarrow>
   getService s (hc_Node c) (hc_ServiceID c) = None \<Longrightarrow>
     EnsureCheck s i c = \<lparr>wr_err = Some ErrMissingService, wr_store = s, wr_watches = None\<rparr>"
  by (auto simp: EnsureCheck_def write_txn_def ensureCheckTxn_def)

lemma EnsureCheck_ok:
  assumes "GetNode s (hc_Node c) \<noteq> None"
    and "hc_ServiceID c = [] \<or> getService s (hc_Node c) (hc_ServiceID c) \<noteq> None"
  shows "wr_err (EnsureCheck s i c) = None"
    and "getCheck (wr_store (EnsureCheck s i c)) (hc_Node c) (hc_CheckID c) =
      Some (c\<lparr>hc_CreateIndex :=
                 (case getCheck s (hc_Node c) (hc_CheckID c) of None \<Rightarrow> i | Some e \<Rightarrow> hc_CreateIndex e),
              hc_ModifyIndex := i\<rparr>)"
proof -
  let ?v = "c\<lparr>hc_CreateIndex :=
                 (case getCheck s (hc_Node c) (hc_CheckID c) of None \<Rightarrow> i | Some e \<Rightarrow> hc_CreateIndex e),
              hc_ModifyIndex := i\<rparr>"
  let ?same = "\<lambda>x. hc_Node x = hc_Node c \<and> hc_CheckID x = hc_CheckID c"
  have st: "wr_err (EnsureCheck s i c) = None \<and>
        tbl_checks (wr_store (EnsureCheck s i c)) = upsert ?same ?v (tbl_checks s)"
    using assms
    by (auto simp: EnsureCheck_def write_txn_def ensureCheckTxn_def touch_def Let_def
        split: option.splits)
  then show "wr_err (EnsureCheck s i c) = None" by simp
  have "find ?same (upsert ?same ?v (tbl_checks s)) = Some ?v"
    by (rule find_upsert) simp
  moreover have "getCheck s' (hc_Node c) (hc_CheckID c) = find ?same (tbl_checks s')" for s'
  proof -
    have "find (\<lambda>x. hc_CheckID x = k) (filter (\<lambda>x. hc_Node x = m) xs)
          = find (\<lambda>x. hc_Node x = m \<and> hc_CheckID x = k) xs" for xs :: "HealthCheck list" and k m
      by (induction xs) auto
    then show ?thesis by (simp add: getCheck_def NodeChecks_def)
  qed
  ultimately show "getCheck (wr_store (EnsureCheck s i c)) (hc_Node c) (hc_CheckID c) = Some ?v"
    using st by simp
qed

text \<open>
  Claim C4. \<^verbatim>\<open>EnsureService\<close> on a node that does not exist returns \<^verbatim>\<open>ErrMissingNode\<close>,
  the store unchanged and nothing armed. \<^verbatim>\<open>EnsureCheck\<close> returns \<^verbatim>\<open>ErrMissingNode\<close> in the
  same way when the check's node does not exist, and \<^verbatim>\<open>ErrMissingService\<close> when the node
  exists and the check names a non-empty service id that the node has no service for. A
  check with an empty service id on an existing node is stored.
\<close>

theorem Ensure_missing_parent:
  "(GetNode s name = None \<longrightarrow>
      EnsureService s i name svc = \<lparr>wr_err = Some ErrMissingNode, wr_store = s, wr_watches = None\<rparr>) \<and>
   (GetNode s (hc_Node c) = None \<longrightarrow>
      EnsureCheck s i c = \<lparr>wr_err = Some ErrMissingNode, wr_store = s, wr_watches = None\<rparr>) \<and>
   (GetNode s (hc_Node c) \<noteq> None \<and> hc_ServiceID c \<noteq> [] \<and>
    getService s (hc_Node c) (hc_ServiceID c) = None \<longrightarrow>
      EnsureCheck s i c = \<lparr>wr_err = Some ErrMissingService, wr_store = s, wr_watches = None\<rparr>) \<and>
   (GetNode s (hc_Node c) \<noteq> None \<and> hc_ServiceID c = [] \<longrightarrow>
      wr_err (EnsureCheck s i c) = None \<and>
      getCheck (wr_store (EnsureCheck s i c)) (hc_Node c) (hc_CheckID c) \<noteq> None)"
  using EnsureService_missing_node [of s name i svc] EnsureCheck_missing_node [of s c i]
    EnsureCheck_missing_service [of s c i] EnsureCheck_ok [of s c i]
  by (intro conjI impI) auto




theorem Ensure_missing_parent_witness:
  "GetNode NewStateStore ''node1'' = None \<and>
   EnsureService NewStateStore 1 ''node1'' (redis ''service1'')
     = \<lparr>wr_err = Some ErrMissingNode, wr_store = NewStateStore, wr_watches = None\<rparr> \<and>
   GetNode NewStateStore (hc_Node (redis_check ''service1'')) = None \<and>
   EnsureCheck NewStateStore 1 (redis_check ''service1'')
     = \<lparr>wr_err = Some ErrMissingNode, wr_store = NewStateStore, wr_watches = None\<rparr> \<and>
   GetNode scenario_node (hc_Node (redis_check ''service1'')) \<noteq> None \<and>
   hc_ServiceID (redis_check ''service1'') \<noteq> [] \<and>
   getService scenario_node (hc_Node (redis_check ''service1'')) (hc_ServiceID (redis_check ''service1''))
     = None \<and>
   EnsureCheck scenario_node 1 (redis_check ''service1'')
     = \<lparr>wr_err = Some ErrMissingService, wr_store = scenario_node, wr_watches = None\<rparr> \<and>
   hc_ServiceID (redis_check []) = [] \<and>
   wr_err (EnsureCheck scenario_node 1 (redis_check [])) = None \<and>
   getCheck (wr_store (EnsureCheck scenario_node 1 (redis_check [])))
     (hc_Node (redis_check [])) (hc_CheckID (redis_check [])) \<noteq> None"
proof -
  have a: "GetNode NewStateStore ''node1'' = None"
    "GetNode NewStateStore (hc_Node (redis_check ''service1'')) = None"
    by (simp_all add: GetNode_def NewStateStore_def)
  have b: "GetNode scenario_node (hc_Node (redis_check ''service1'')) \<noteq> None"
    "GetNode scenario_node (hc_Node (redis_check [])) \<noteq> None"
    "hc_ServiceID (redis_check ''service1'') \<noteq> []"
    "hc_ServiceID (redis_check []) = []"
    "getService scenario_node (hc_Node (redis_check ''service1''))
       (hc_ServiceID (redis_check ''service1'')) = None"
    by (simp_all add: GetNode_def getService_def node_services_def scenario_node_eval(1)
        redis_check_def)
  from Ensure_missing_parent [of NewStateStore "''node1''" 1 "redis ''service1''" "redis_check ''service1''"]
    Ensure_missing_parent [of scenario_node "''node1''" 1 "redis ''service1''" "redis_check ''service1''"]
    Ensure_missing_parent [of scenario_node "''node1''" 1 "redis ''service1''" "redis_check []"]
    a b
  show ?thesis by blast
qed

subsection \<open>The services of a node\<close>

text \<open>Every write keeps the rows of the services table apart by their key.\<close>

lemma services_keyed_node:
  "services_keyed s \<Longrightarrow> distinct (map ns_ID (node_services s n))"
proof -
  have "distinct (map (\<lambda>row. (fst row, ns_ID (snd row))) rows) \<Longrightarrow>
        distinct (map ns_ID (map snd (filter (\<lambda>row. fst row = n) rows)))"
    for rows :: "(string \<times> NodeService) list"
    by (induction rows) (auto simp: image_iff)
  then show "services_keyed s \<Longrightarrow> distinct (map ns_ID (node_services s n))"
    by (simp add: services_keyed_def node_services_def)
qed

lemma distinct_upsert:
  assumes "distinct (map key rows)"
  shows "distinct (map key (upsert (\<lambda>x. key x = key r) r rows))"
proof (cases "list_ex (\<lambda>x. key x = key r) rows")
  case True
  have "map (\<lambda>x. key (if key x = key r then r else x)) rows = map key rows"
    by (induction rows) auto
  moreover from True
  have "map key (upsert (\<lambda>x. key x = key r) r rows)
          = map (\<lambda>x. key (if key x = key r then r else x)) rows"
    by (simp add: upsert_def comp_def)
  ultimately have "map key (upsert (\<lambda>x. key x = key r) r rows) = map key rows"
    by (rule trans [rotated])
  with assms show ?thesis by (simp only:)
next
  case False
  with assms show ?thesis by (auto simp: upsert_def list_ex_iff)
qed

lemma services_keyed_New: "services_keyed NewStateStore"
  by (simp add: services_keyed_def NewStateStore_def)

lemma write_txn_Inr:
  "wr_err (write_txn s (\<lambda>t. Inr (f t))) = None"
  "wr_store (write_txn s (\<lambda>t. Inr (f t))) = fst (f (s, NewDumbWatchManager (store_watches s)))"
  by (simp_all add: write_txn_def split: prod.splits)

lemma services_keyed_writes:
  assumes "services_keyed s"
  shows "services_keyed (wr_store (EnsureNode s i n))"
    and "services_keyed (wr_store (EnsureService s i name svc))"
    and "services_keyed (wr_store (EnsureCheck s i c))"
    and "services_keyed (wr_store (DeleteCheck s i name cid))"
    and "services_keyed (wr_store (DeleteNodeService s i name sid))"
    and "services_keyed (wr_store (DeleteNode s i name))"
proof -
  show "services_keyed (wr_store (EnsureNode s i n))"
    using assms by (simp add: EnsureNode_store services_keyed_def)
  show "services_keyed (wr_store (EnsureCheck s i c))"
    using assms
    by (auto simp: EnsureCheck_def write_txn_def ensureCheckTxn_def touch_def Let_def
        services_keyed_def split: option.splits)
  show "services_keyed (wr_store (DeleteCheck s i name cid))"
    using assms
    by (simp add: DeleteCheck_def write_txn_Inr services_keyed_def deleteCheckTxn_simps)
  show "services_keyed (wr_store (DeleteNodeService s i name sid))"
    using assms
    by (simp add: DeleteNodeService_def write_txn_Inr services_keyed_def
        deleteNodeServiceTxn_simps distinct_map_filter)
  show "services_keyed (wr_store (DeleteNode s i name))"
  proof (cases "GetNode s name")
    case None
    with assms show ?thesis
      by (simp add: DeleteNode_def write_txn_Inr deleteNodeTxn_def)
  next
    case (Some a)
    then have "GetNode (fst (s, NewDumbWatchManager (store_watches s))) name \<noteq> None" by simp
    from deleteNodeTxn_cascade(2) [OF this, of i] assms show ?thesis
      by (simp add: DeleteNode_def write_txn_Inr services_keyed_def distinct_map_filter)
  qed
  show "services_keyed (wr_store (EnsureService s i name svc))"
  proof (cases "GetNode s name")
    case None
    with assms show ?thesis by (simp add: EnsureService_missing_node)
  next
    case (Some a)
    let ?v = "case getService s name (ns_ID svc) of
                None \<Rightarrow> svc\<lparr>ns_CreateIndex := i, ns_ModifyIndex := i\<rparr>
              | Some existing \<Rightarrow>
                  svc\<lparr>ns_CreateIndex := ns_CreateIndex existing, ns_ModifyIndex := i\<rparr>"
    have id: "ns_ID ?v = ns_ID svc" by (simp split: option.splits)
    have "tbl_services (wr_store (EnsureService s i name svc)) =
        upsert (\<lambda>row. (fst row, ns_ID (snd row)) = (fst (name, ?v), ns_ID (snd (name, ?v))))
          (name, ?v) (tbl_services s)"
      using Some
      by (simp add: EnsureService_def write_txn_def ensureServiceTxn_def touch_def Let_def id)
    with assms show ?thesis
      unfolding services_keyed_def
      using distinct_upsert [of "\<lambda>row. (fst row, ns_ID (snd row))" "tbl_services s" "(name, ?v)"]
      by simp
  qed
qed

lemma fold_services_map:
  "fold (\<lambda>svc m. m(ns_ID svc \<mapsto> svc)) rows m0
     = m0 ++ map_of (rev (map (\<lambda>svc. (ns_ID svc, svc)) rows))"
proof (induction rows arbitrary: m0)
  case Nil
  then show ?case by simp
next
  case (Cons r rows)
  have "m0(ns_ID r \<mapsto> r) ++ map_of (rev (map (\<lambda>svc. (ns_ID svc, svc)) rows))
      = m0 ++ ([ns_ID r \<mapsto> r] ++ map_of (rev (map (\<lambda>svc. (ns_ID svc, svc)) rows)))"
    by (rule ext) (simp add: map_add_def split: option.splits)
  moreover have "fold (\<lambda>svc m. m(ns_ID svc \<mapsto> svc)) (r # rows) m0
      = fold (\<lambda>svc m. m(ns_ID svc \<mapsto> svc)) rows (m0(ns_ID r \<mapsto> r))"
    by simp
  moreover have "map_of (rev (map (\<lambda>svc. (ns_ID svc, svc)) (r # rows)))
      = [ns_ID r \<mapsto> r] ++ map_of (rev (map (\<lambda>svc. (ns_ID svc, svc)) rows))"
    by simp
  ultimately show ?case by (simp only: Cons.IH)
qed

lemma services_map_lookup:
  assumes "distinct (map ns_ID rows)"
  shows "(fold (\<lambda>svc m. m(ns_ID svc \<mapsto> svc)) rows Map.empty k = Some v)
           = (v \<in> set rows \<and> ns_ID v = k)"
proof -
  have d: "distinct (map fst (rev (map (\<lambda>svc. (ns_ID svc, svc)) rows)))"
    using assms by (simp add: rev_map [symmetric] comp_def)
  show ?thesis
    unfolding fold_services_map by (auto simp: map_of_eq_Some_iff [OF d])
qed

lemma fold_max_nat:
  "rows \<noteq> [] \<Longrightarrow> fold max (map f rows) (0::nat) = Max (f ` set rows)"
proof -
  assume ne: "rows \<noteq> []"
  have "fold max (map f rows) 0 = Max (set (0 # map f rows))"
    by (simp only: Max.set_eq_fold)
  also have "\<dots> = max 0 (Max (f ` set rows))"
    using ne by (simp add: Max_insert)
  finally show ?thesis by simp
qed

text \<open>
  Claim C7. For a node that does not exist \<^verbatim>\<open>NodeServices\<close> returns not-found. For an
  existing node, in a store that keeps the rows of the services table apart by their key, it
  returns the node's services, each under its id and nothing else, and the node with the highest modify index (and the
  highest create index) among its services, or with its own when it has no service.
\<close>

theorem NodeServices_snapshot:
  assumes keys: "services_keyed s"
  shows "(GetNode s n = None \<longrightarrow> NodeServices s n = None) \<and>
         (\<forall>node. GetNode s n = Some node \<longrightarrow>
            (\<exists>r. NodeServices s n = Some r \<and>
               (\<forall>k v. (nss_Services r k = Some v) = (v \<in> set (node_services s n) \<and> ns_ID v = k)) \<and>
               n_Node (nss_Node r) = n \<and> n_Address (nss_Node r) = n_Address node \<and>
               n_ModifyIndex (nss_Node r) =
                 (if node_services s n = [] then n_ModifyIndex node
                  else Max (ns_ModifyIndex ` set (node_services s n))) \<and>
               n_CreateIndex (nss_Node r) =
                 (if node_services s n = [] then n_CreateIndex node
                  else Max (ns_CreateIndex ` set (node_services s n)))))"
proof (intro conjI allI impI)
  assume "GetNode s n = None"
  then show "NodeServices s n = None" by (simp add: NodeServices_def)
next
  fix node
  assume g: "GetNode s n = Some node"
  then have name: "n_Node node = n"
    by (auto simp: GetNode_def dest: find_Some_iff [THEN iffD1])
  let ?rows = "node_services s n"
  let ?r = "\<lparr>nss_Node =
                (if ?rows = [] then node
                 else node\<lparr>n_CreateIndex := fold max (map ns_CreateIndex ?rows) 0,
                           n_ModifyIndex := fold max (map ns_ModifyIndex ?rows) 0\<rparr>),
              nss_Services = fold (\<lambda>svc m. m(ns_ID svc \<mapsto> svc)) ?rows Map.empty\<rparr>"
  have r: "NodeServices s n = Some ?r"
    using g by (simp add: NodeServices_def Let_def)
  have m: "(nss_Services ?r k = Some v) = (v \<in> set ?rows \<and> ns_ID v = k)" for k v
    using services_map_lookup [OF services_keyed_node [OF keys]] by simp
  have i: "n_ModifyIndex (nss_Node ?r) =
                 (if ?rows = [] then n_ModifyIndex node else Max (ns_ModifyIndex ` set ?rows))"
    "n_CreateIndex (nss_Node ?r) =
                 (if ?rows = [] then n_CreateIndex node else Max (ns_CreateIndex ` set ?rows))"
    "n_Node (nss_Node ?r) = n" "n_Address (nss_Node ?r) = n_Address node"
    by (simp_all add: fold_max_nat name)
  show "\<exists>r. NodeServices s n = Some r \<and>
               (\<forall>k v. (nss_Services r k = Some v) = (v \<in> set (node_services s n) \<and> ns_ID v = k)) \<and>
               n_Node (nss_Node r) = n \<and> n_Address (nss_Node r) = n_Address node \<and>
               n_ModifyIndex (nss_Node r) =
                 (if node_services s n = [] then n_ModifyIndex node
                  else Max (ns_ModifyIndex ` set (node_services s n))) \<and>
               n_CreateIndex (nss_Node r) =
                 (if node_services s n = [] then n_CreateIndex node
                  else Max (ns_CreateIndex ` set (node_services s n)))"
    using r m i by (intro exI [of _ ?r] conjI allI) assumption+
qed


lemma three_services_rows:
  "node_services three_services ''node1'' =
     [(redis ''service1'')\<lparr>ns_CreateIndex := 10, ns_ModifyIndex := 10\<rparr>,
      (redis ''service2'')\<lparr>ns_CreateIndex := 20, ns_ModifyIndex := 20\<rparr>]"
  "GetNode three_services ''node1''
     = Some \<lparr>n_Node = ''node1'', n_Address = [], n_CreateIndex = 0, n_ModifyIndex = 0\<rparr>"
  by (simp_all add: three_services_def two_nodes_def redis_def eval_defs NewStateStore_def)

theorem NodeServices_snapshot_witness:
  "services_keyed three_services \<and>
   GetNode three_services ''node1''
     = Some \<lparr>n_Node = ''node1'', n_Address = [], n_CreateIndex = 0, n_ModifyIndex = 0\<rparr> \<and>
   (\<exists>r. NodeServices three_services ''node1'' = Some r \<and>
      nss_Services r ''service1''
        = Some ((redis ''service1'')\<lparr>ns_CreateIndex := 10, ns_ModifyIndex := 10\<rparr>) \<and>
      nss_Services r ''service2''
        = Some ((redis ''service2'')\<lparr>ns_CreateIndex := 20, ns_ModifyIndex := 20\<rparr>) \<and>
      nss_Services r ''service3'' = None \<and>
      n_ModifyIndex (nss_Node r) = 20 \<and> n_CreateIndex (nss_Node r) = 20) \<and>
   services_keyed NewStateStore \<and>
   GetNode NewStateStore ''node1'' = None \<and>
   NodeServices NewStateStore ''node1'' = None"
proof -
  let ?n = "\<lparr>n_Node = ''node1'', n_Address = [], n_CreateIndex = 0, n_ModifyIndex = 0\<rparr>"
  have d0: "services_keyed NewStateStore" by (rule services_keyed_New)
  have d: "services_keyed three_services"
    unfolding three_services_def two_nodes_def testRegisterNode_def
    by (intro services_keyed_writes d0)
  have g0: "GetNode NewStateStore ''node1'' = None"
    by (simp add: GetNode_def NewStateStore_def)
  note g = three_services_rows(2)
  from NodeServices_snapshot [OF d] g obtain r where r: "NodeServices three_services ''node1'' = Some r"
    and m: "\<And>k v. (nss_Services r k = Some v)
               = (v \<in> set (node_services three_services ''node1'') \<and> ns_ID v = k)"
    and mi: "n_ModifyIndex (nss_Node r) =
                 (if node_services three_services ''node1'' = [] then n_ModifyIndex ?n
                  else Max (ns_ModifyIndex ` set (node_services three_services ''node1'')))"
    and ci: "n_CreateIndex (nss_Node r) =
                 (if node_services three_services ''node1'' = [] then n_CreateIndex ?n
                  else Max (ns_CreateIndex ` set (node_services three_services ''node1'')))"
    by blast
  have "nss_Services r ''service1''
        = Some ((redis ''service1'')\<lparr>ns_CreateIndex := 10, ns_ModifyIndex := 10\<rparr>)"
    and "nss_Services r ''service2''
        = Some ((redis ''service2'')\<lparr>ns_CreateIndex := 20, ns_ModifyIndex := 20\<rparr>)"
    unfolding m by (simp_all add: three_services_rows(1) redis_def)
  moreover have "nss_Services r ''service3'' = None"
  proof (cases "nss_Services r ''service3''")
    case (Some v)
    then show ?thesis unfolding m by (auto simp: three_services_rows(1) redis_def)
  qed simp
  moreover have "n_ModifyIndex (nss_Node r) = 20" "n_CreateIndex (nss_Node r) = 20"
    unfolding mi ci by (simp_all add: three_services_rows(1) redis_def)
  ultimately have "\<exists>r. NodeServices three_services ''node1'' = Some r \<and>
      nss_Services r ''service1''
        = Some ((redis ''service1'')\<lparr>ns_CreateIndex := 10, ns_ModifyIndex := 10\<rparr>) \<and>
      nss_Services r ''service2''
        = Some ((redis ''service2'')\<lparr>ns_CreateIndex := 20, ns_ModifyIndex := 20\<rparr>) \<and>
      nss_Services r ''service3'' = None \<and>
      n_ModifyIndex (nss_Node r) = 20 \<and> n_CreateIndex (nss_Node r) = 20"
    using r by blast
  moreover from NodeServices_snapshot [OF d0] g0 have "NodeServices NewStateStore ''node1'' = None" by blast
  ultimately show ?thesis using d d0 g g0 by (intro conjI) assumption+
qed

end
